theory Spec2Isabelle
  imports Main
begin

unbundle bit_operations_syntax

section \<open>Go strings, runes and UTF-8\<close>

text \<open>
  A Go \<open>string\<close> is an immutable sequence of bytes; it is modelled as a \<^typ>\<open>string\<close>
  (a list of 8-bit \<^typ>\<open>char\<close>s). A \<open>rune\<close> is a Unicode code point, modelled as a
  natural number. \<open>for i, char := range s\<close> decodes \<open>s\<close> as UTF-8: \<open>i\<close> is the
  \<^emph>\<open>byte\<close> offset at which the rune starts, \<open>char\<close> is the rune, and a byte that does
  not start a well-formed sequence yields \<open>U+FFFD\<close> and advances by one byte.
\<close>

type_synonym rune = nat

definition byte_of :: "char \<Rightarrow> nat" where
  "byte_of c = of_char c"

definition RuneError :: rune where
  "RuneError = 0xFFFD"

definition RuneSelf :: nat where
  "RuneSelf = 0x80"

text \<open>
  The table \<open>first\<close> of \<open>unicode/utf8\<close> together with \<open>acceptRanges\<close>: for a lead
  byte, the length of the sequence and the range allowed for the second byte;
  \<open>None\<close> for the bytes that cannot start a multi-byte sequence.
\<close>

definition first_info :: "nat \<Rightarrow> (nat \<times> nat \<times> nat) option" where
  "first_info s0 =
     (if 0xC2 \<le> s0 \<and> s0 \<le> 0xDF then Some (2, 0x80, 0xBF)
      else if s0 = 0xE0 then Some (3, 0xA0, 0xBF)
      else if 0xE1 \<le> s0 \<and> s0 \<le> 0xEC then Some (3, 0x80, 0xBF)
      else if s0 = 0xED then Some (3, 0x80, 0x9F)
      else if 0xEE \<le> s0 \<and> s0 \<le> 0xEF then Some (3, 0x80, 0xBF)
      else if s0 = 0xF0 then Some (4, 0x90, 0xBF)
      else if 0xF1 \<le> s0 \<and> s0 \<le> 0xF3 then Some (4, 0x80, 0xBF)
      else if s0 = 0xF4 then Some (4, 0x80, 0x8F)
      else None)"

text \<open>\<open>utf8.DecodeRuneInString\<close>: the first rune of \<open>s\<close> and its width in bytes.\<close>

definition DecodeRuneInString :: "string \<Rightarrow> rune \<times> nat" where
  "DecodeRuneInString s =
     (if length s < 1 then (RuneError, 0)
      else
        let s0 = byte_of (s ! 0) in
        if s0 < RuneSelf then (s0, 1)
        else
          case first_info s0 of
            None \<Rightarrow> (RuneError, 1)
          | Some (sz, lo, hi) \<Rightarrow>
              if length s < sz then (RuneError, 1)
              else
                let s1 = byte_of (s ! 1) in
                if s1 < lo \<or> hi < s1 then (RuneError, 1)
                else if sz \<le> 2 then (push_bit 6 (s0 AND 0x1F) OR (s1 AND 0x3F), 2)
                else
                  let s2 = byte_of (s ! 2) in
                  if s2 < 0x80 \<or> 0xBF < s2 then (RuneError, 1)
                  else if sz \<le> 3 then
                    (push_bit 12 (s0 AND 0x0F) OR push_bit 6 (s1 AND 0x3F) OR (s2 AND 0x3F), 3)
                  else
                    let s3 = byte_of (s ! 3) in
                    if s3 < 0x80 \<or> 0xBF < s3 then (RuneError, 1)
                    else
                      (push_bit 18 (s0 AND 0x07) OR push_bit 12 (s1 AND 0x3F)
                         OR push_bit 6 (s2 AND 0x3F) OR (s3 AND 0x3F), 4))"

text \<open>
  The iteration \<open>for i, char := range s\<close>: the list of pairs \<open>(i, char)\<close> the loop body
  is run with, \<open>i\<close> counting bytes from the offset \<open>off\<close> of \<open>s\<close> in the whole string.
\<close>

function range_from :: "nat \<Rightarrow> string \<Rightarrow> (nat \<times> rune) list" where
  "range_from off s =
     (if s = [] then []
      else
        let (r, size) = DecodeRuneInString s
        in (off, r) # range_from (off + size) (drop size s))"
  by pat_completeness auto

termination range_from
proof (relation "measure (\<lambda>(off, s). length s)")
  show "wf (measure (\<lambda>(off, s). length s))" by simp
next
  fix off :: nat and s :: string and x :: "rune \<times> nat" and r :: rune and size :: nat
  assume "s \<noteq> []" and "x = DecodeRuneInString s" and "(r, size) = x"
  moreover have "0 < snd (DecodeRuneInString s)" if "s \<noteq> []"
    using that by (cases s) (auto simp: DecodeRuneInString_def Let_def split: option.splits)
  ultimately have "0 < size"
    by (metis snd_conv)
  with \<open>s \<noteq> []\<close> show "((off + size, drop size s), (off, s)) \<in> measure (\<lambda>(off, s). length s)"
    by simp
qed

declare range_from.simps [simp del]

definition range_string :: "string \<Rightarrow> (nat \<times> rune) list" where
  "range_string s = range_from 0 s"

text \<open>
  \<open>strings.Builder.WriteRune\<close> appends the UTF-8 encoding of a rune
  (\<open>utf8.AppendRune\<close>); surrogates and values above \<open>U+10FFFF\<close> are written as
  \<open>U+FFFD\<close>.
\<close>

definition encode3 :: "rune \<Rightarrow> string" where
  "encode3 r =
     [char_of (0xE0 OR drop_bit 12 r),
      char_of (0x80 OR (drop_bit 6 r AND 0x3F)),
      char_of (0x80 OR (r AND 0x3F))]"

definition AppendRune :: "string \<Rightarrow> rune \<Rightarrow> string" where
  "AppendRune p r =
     (if r \<le> 0x7F then p @ [char_of r]
      else if r \<le> 0x7FF then
        p @ [char_of (0xC0 OR drop_bit 6 r), char_of (0x80 OR (r AND 0x3F))]
      else if r > 0x10FFFF \<or> (0xD800 \<le> r \<and> r \<le> 0xDFFF) then p @ encode3 RuneError
      else if r \<le> 0xFFFF then p @ encode3 r
      else
        p @ [char_of (0xF0 OR drop_bit 18 r),
             char_of (0x80 OR (drop_bit 12 r AND 0x3F)),
             char_of (0x80 OR (drop_bit 6 r AND 0x3F)),
             char_of (0x80 OR (r AND 0x3F))])"

definition WriteRune :: "string \<Rightarrow> rune \<Rightarrow> string" where
  "WriteRune b r = AppendRune b r"

section \<open>The alphabet filter\<close>

text \<open>The condition of \<open>removeNonBase64\<close> on a rune.\<close>

definition keep_rune :: "rune \<Rightarrow> bool" where
  "keep_rune ch \<longleftrightarrow>
     (ch \<ge> byte_of CHR ''A'' \<and> ch \<le> byte_of CHR ''Z'') \<or>
     (ch \<ge> byte_of CHR ''a'' \<and> ch \<le> byte_of CHR ''z'') \<or>
     (ch \<ge> byte_of CHR ''0'' \<and> ch \<le> byte_of CHR ''9'') \<or>
     ch = byte_of CHR ''+'' \<or> ch = byte_of CHR ''/'' \<or> ch = byte_of CHR ''=''"

fun removeNonBase64_loop :: "(nat \<times> rune) list \<Rightarrow> string \<Rightarrow> string" where
  "removeNonBase64_loop [] result = result"
| "removeNonBase64_loop ((i, ch) # rest) result =
     removeNonBase64_loop rest (if keep_rune ch then WriteRune result ch else result)"

definition removeNonBase64 :: "string \<Rightarrow> string" where
  "removeNonBase64 s = removeNonBase64_loop (range_string s) []"


section \<open>The line wrapper\<close>

definition newline :: rune where
  "newline = 0x0A"

fun wrapString_loop :: "int \<Rightarrow> (nat \<times> rune) list \<Rightarrow> string \<Rightarrow> string" where
  "wrapString_loop width [] result = result"
| "wrapString_loop width ((i, ch) # rest) result =
     (let result' = (if i > 0 \<and> int i mod width = 0 then WriteRune result newline else result)
      in wrapString_loop width rest (WriteRune result' ch))"

text \<open>
  \<open>wrapString\<close>. The width is a Go \<open>int\<close>; the offsets \<open>i\<close> are non-negative and the
  modulus is taken for a positive width only, where Go's \<open>%\<close> and \<open>mod\<close> agree.
\<close>

definition wrapString :: "string \<Rightarrow> int \<Rightarrow> string" where
  "wrapString s width =
     (if width \<le> 0 then s else wrapString_loop width (range_string s) [])"

section \<open>Cancellation\<close>

datatype error =
    Canceled
  | io_EOF
  | ReadError string
  | ErrTooLong
  | CorruptInputError nat

text \<open>
  The context is observed only through the checks made on it. \<open>polls\<close> counts the
  checks made so far; the signal is cancelled from check number \<open>cancel_at\<close> on
  (it fires between two checks and never goes back), \<open>None\<close> when it never fires.
\<close>

record Context =
  polls :: nat
  cancel_at :: "nat option"

definition cancelled :: "Context \<Rightarrow> bool" where
  "cancelled ctx = (case cancel_at ctx of None \<Rightarrow> False | Some d \<Rightarrow> d \<le> polls ctx)"

text \<open>
  Modelled from the spec: \<open>yup.CheckContextCancellation\<close> of the framework, which is not
  among the sources. It inspects the cancellation signal; if the signal has
  transitioned to cancelled it fails with the cancellation error, otherwise it
  returns with no effect.
\<close>

definition CheckContextCancellation :: "Context \<Rightarrow> error option \<times> Context" where
  "CheckContextCancellation ctx =
     (if cancelled ctx then Some Canceled else None, ctx\<lparr>polls := polls ctx + 1\<rparr>)"

fun wrapStringWithContext_loop ::
  "int \<Rightarrow> (nat \<times> rune) list \<Rightarrow> string \<Rightarrow> Context \<Rightarrow> (error + string) \<times> Context" where
  "wrapStringWithContext_loop width [] result ctx = (Inr result, ctx)"
| "wrapStringWithContext_loop width ((i, ch) # rest) result ctx =
     (case (if i mod 1000 = 0 then CheckContextCancellation ctx else (None, ctx)) of
        (Some err, ctx') \<Rightarrow> (Inl err, ctx')
      | (None, ctx') \<Rightarrow>
          let result' = (if i > 0 \<and> int i mod width = 0 then WriteRune result newline else result)
          in wrapStringWithContext_loop width rest (WriteRune result' ch) ctx')"

definition wrapStringWithContext :: "Context \<Rightarrow> string \<Rightarrow> int \<Rightarrow> (error + string) \<times> Context" where
  "wrapStringWithContext ctx s width =
     (if width \<le> 0 then (Inr s, ctx)
      else wrapStringWithContext_loop width (range_string s) [] ctx)"

fun removeNonBase64WithContext_loop ::
  "(nat \<times> rune) list \<Rightarrow> string \<Rightarrow> Context \<Rightarrow> (error + string) \<times> Context" where
  "removeNonBase64WithContext_loop [] result ctx = (Inr result, ctx)"
| "removeNonBase64WithContext_loop ((i, ch) # rest) result ctx =
     (case (if i mod 1000 = 0 then CheckContextCancellation ctx else (None, ctx)) of
        (Some err, ctx') \<Rightarrow> (Inl err, ctx')
      | (None, ctx') \<Rightarrow>
          removeNonBase64WithContext_loop rest
            (if (ch \<ge> byte_of CHR ''A'' \<and> ch \<le> byte_of CHR ''Z'') \<or>
                (ch \<ge> byte_of CHR ''a'' \<and> ch \<le> byte_of CHR ''z'') \<or>
                (ch \<ge> byte_of CHR ''0'' \<and> ch \<le> byte_of CHR ''9'') \<or>
                ch = byte_of CHR ''+'' \<or> ch = byte_of CHR ''/'' \<or> ch = byte_of CHR ''=''
             then WriteRune result ch else result) ctx')"

definition removeNonBase64WithContext :: "Context \<Rightarrow> string \<Rightarrow> (error + string) \<times> Context" where
  "removeNonBase64WithContext ctx s = removeNonBase64WithContext_loop (range_string s) [] ctx"

section \<open>Standard base64 (\<open>encoding/base64\<close>, \<open>StdEncoding\<close>)\<close>

definition encodeStd :: string where
  "encodeStd = ''ABCDEFGHIJKLMNOPQRSTUVWXYZabcdefghijklmnopqrstuvwxyz0123456789+/''"

definition padChar :: char where
  "padChar = CHR ''=''"

definition enc :: "nat \<Rightarrow> char" where
  "enc k = encodeStd ! k"

text \<open>
  \<open>Encoding.Encode\<close>: three bytes become four characters; a final group of one or two
  bytes is padded with \<open>=\<close>. \<open>val\<close> is a \<open>uint\<close> below \<open>2^24\<close>, so nothing wraps.
\<close>

fun Encode :: "string \<Rightarrow> string" where
  "Encode (a # b # c # rest) =
     (let val = push_bit 16 (byte_of a) OR push_bit 8 (byte_of b) OR byte_of c
      in [enc (drop_bit 18 val AND 0x3F), enc (drop_bit 12 val AND 0x3F),
          enc (drop_bit 6 val AND 0x3F), enc (val AND 0x3F)] @ Encode rest)"
| "Encode [a, b] =
     (let val = push_bit 16 (byte_of a) OR push_bit 8 (byte_of b)
      in [enc (drop_bit 18 val AND 0x3F), enc (drop_bit 12 val AND 0x3F),
          enc (drop_bit 6 val AND 0x3F), padChar])"
| "Encode [a] =
     (let val = push_bit 16 (byte_of a)
      in [enc (drop_bit 18 val AND 0x3F), enc (drop_bit 12 val AND 0x3F), padChar, padChar])"
| "Encode [] = []"

definition EncodeToString :: "string \<Rightarrow> string" where
  "EncodeToString src = Encode src"

text \<open>\<open>decodeMap\<close>: the index of a character in the alphabet, \<open>0xff\<close> for any other byte.\<close>

definition decodeMap :: "char \<Rightarrow> nat" where
  "decodeMap c = (if c \<in> set encodeStd then length (takeWhile (\<lambda>x. x \<noteq> c) encodeStd) else 0xff)"

definition is_newline :: "char \<Rightarrow> bool" where
  "is_newline c \<longleftrightarrow> c = CHR 0x0A \<or> c = CHR 0x0D"

text \<open>The loops \<open>for si < len(src) && (src[si] == '\n' || src[si] == '\r') { si++ }\<close>.\<close>

fun skip_newlines :: "string \<Rightarrow> nat \<Rightarrow> string \<times> nat" where
  "skip_newlines [] si = ([], si)"
| "skip_newlines (c # cs) si = (if is_newline c then skip_newlines cs (si + 1) else (c # cs, si))"

text \<open>
  The outcome of the loop of \<open>decodeQuantum\<close>: either the function returns from inside
  the loop, with no byte written, or the loop is left with \<open>dbuf\<close>, \<open>dlen\<close> and a
  possible trailing-garbage error. The source is given by its unread part and the
  offset \<open>si\<close> of that part.
\<close>

datatype quantum =
    Return nat "error option"
  | Quantum "nat list" nat string nat "error option"

definition after_padding :: "nat list \<Rightarrow> string \<Rightarrow> nat \<Rightarrow> quantum" where
  "after_padding dbuf rest si =
     (let (rest', si') = skip_newlines rest si
      in Quantum dbuf (length dbuf) rest' si'
           (if rest' \<noteq> [] then Some (CorruptInputError si') else None))"

fun decodeQuantum_loop :: "nat list \<Rightarrow> string \<Rightarrow> nat \<Rightarrow> quantum" where
  "decodeQuantum_loop dbuf [] si =
     (let j = length dbuf in
      if j \<ge> 4 then Quantum dbuf 4 [] si None
      else if j = 0 then Return si None
      else Return si (Some (CorruptInputError (si - j))))"
| "decodeQuantum_loop dbuf (c # rest) si =
     (let j = length dbuf in
      if j \<ge> 4 then Quantum dbuf 4 (c # rest) si None
      else
        let out = decodeMap c in
        if out \<noteq> 0xff then decodeQuantum_loop (dbuf @ [out]) rest (si + 1)
        else if is_newline c then decodeQuantum_loop dbuf rest (si + 1)
        else if c \<noteq> padChar then Return (si + 1) (Some (CorruptInputError si))
        else if j = 0 \<or> j = 1 then Return (si + 1) (Some (CorruptInputError si))
        else if j = 2 then
          (case skip_newlines rest (si + 1) of
             ([], si') \<Rightarrow> Return si' (Some (CorruptInputError si'))
           | (c' # rest', si') \<Rightarrow>
               if c' \<noteq> padChar then Return si' (Some (CorruptInputError (si' - 1)))
               else after_padding dbuf rest' (si' + 1))
        else after_padding dbuf rest (si + 1))"

text \<open>
  \<open>decodeQuantum\<close>: the new offset with the unread part, the bytes written and the error.
  The four 6-bit values are assembled into 24 bits, of which \<open>dlen - 1\<close> bytes are kept.
\<close>

definition decodeQuantum :: "string \<Rightarrow> nat \<Rightarrow> (string \<times> nat) \<times> string \<times> error option" where
  "decodeQuantum src si =
     (case decodeQuantum_loop [] src si of
        Return si' err \<Rightarrow> (([], si'), [], err)
      | Quantum dbuf dlen rest si' err \<Rightarrow>
          let d = dbuf @ replicate (4 - length dbuf) 0;
              val = push_bit 18 (d ! 0) OR push_bit 12 (d ! 1) OR push_bit 6 (d ! 2) OR (d ! 3);
              bytes = [char_of (drop_bit 16 val), char_of (drop_bit 8 val), char_of val]
          in ((rest, si'), take (dlen - 1) bytes, err))"

text \<open>
  \<open>Encoding.Decode\<close> runs \<open>decodeQuantum\<close> until the source is used up or an error
  occurs (its fast paths for eight and four valid characters decode the same quanta).
\<close>

function Decode_loop :: "string \<Rightarrow> nat \<Rightarrow> string \<Rightarrow> string \<times> error option" where
  "Decode_loop src si dst =
     (if src = [] then (dst, None)
      else
        case decodeQuantum src si of
          ((rest, si'), bytes, err) \<Rightarrow>
            if err \<noteq> None then (dst @ bytes, err)
            else Decode_loop rest si' (dst @ bytes))"
  by pat_completeness auto

termination Decode_loop
proof (relation "measure (\<lambda>(src, si, dst). length src)")
  show "wf (measure (\<lambda>(src, si, dst). length src))" by simp
next
  fix src :: string and si :: nat and dst :: string and xa y rest si' bytes err
  assume ne: "src \<noteq> []" and x: "(xa, y) = decodeQuantum src si"
    and r: "(rest, si') = xa" and y: "(bytes, err) = y" and e: "\<not> err \<noteq> None"
  have skip: "length (fst (skip_newlines cs k)) \<le> length cs" for cs k
    by (induction cs arbitrary: k) (auto intro: le_SucI)
  have loop: "decodeQuantum_loop dbuf s k = Quantum d dl rs k' e' \<Longrightarrow>
      length rs \<le> length s \<and> (length dbuf < 4 \<longrightarrow> length rs < length s)" for dbuf s k d dl rs k' e'
  proof (induction dbuf s k rule: decodeQuantum_loop.induct)
    case (1 dbuf si)
    then show ?case by (auto simp: Let_def split: if_splits)
  next
    case (2 dbuf c rest si)
    show ?case
    proof (cases "length dbuf \<ge> 4")
      case True
      then show ?thesis using "2.prems" by (auto simp: Let_def)
    next
      case False
      have ap: "after_padding dbuf xs m = Quantum d dl rs k' e' \<Longrightarrow> length rs \<le> length xs" for xs m
        using skip[of xs m] by (auto simp: after_padding_def split: prod.splits)
      show ?thesis
      proof (cases "decodeMap c \<noteq> 0xff")
        case True
        then show ?thesis using False "2.prems" "2.IH"(1)[OF refl _ refl True] by (auto simp: Let_def)
      next
        case nm: False
        show ?thesis
        proof (cases "is_newline c")
          case True
          then show ?thesis using False nm "2.prems" "2.IH"(2)[OF refl _ refl _ True] by (auto simp: Let_def)
        next
          case nn: False
          have "length dbuf = 2 \<Longrightarrow> skip_newlines rest (si + 1) = (c' # r', m)
                \<Longrightarrow> after_padding dbuf r' (m + 1) = Quantum d dl rs k' e' \<Longrightarrow> length rs < length (c # rest)" for c' r' m
            using skip[of rest "si + 1"] ap[of r' "m + 1"] by auto
          moreover have "after_padding dbuf rest (si + 1) = Quantum d dl rs k' e' \<Longrightarrow> length rs < length (c # rest)"
            using ap[of rest "si + 1"] by auto
          ultimately show ?thesis using False nm nn "2.prems"
            by (auto simp: Let_def split: if_splits prod.splits list.splits)
        qed
      qed
    qed
  qed
  have "length rest < length src"
  proof (cases "decodeQuantum_loop [] src si")
    case (Return k er)
    then show ?thesis using ne x r y by (auto simp: decodeQuantum_def)
  next
    case (Quantum d dl rs k' e')
    then show ?thesis using loop[OF Quantum] ne x r y by (auto simp: decodeQuantum_def Let_def)
  qed
  then show "((rest, si', dst @ bytes), (src, si, dst)) \<in> measure (\<lambda>(src, si, dst). length src)"
    by simp
qed

declare Decode_loop.simps [simp del]

text \<open>\<open>DecodeString\<close> returns the bytes decoded so far together with the error.\<close>

definition DecodeString :: "string \<Rightarrow> string \<times> error option" where
  "DecodeString s = Decode_loop s 0 []"

section \<open>\<open>strings.TrimSpace\<close>\<close>

definition asciiSpace :: "char \<Rightarrow> bool" where
  "asciiSpace c \<longleftrightarrow> c \<in> {CHR 0x09, CHR 0x0A, CHR 0x0B, CHR 0x0C, CHR 0x0D, CHR '' ''}"

text \<open>\<open>unicode.IsSpace\<close>: the Latin-1 white space, then the table \<open>White_Space\<close>.\<close>

definition IsSpace :: "rune \<Rightarrow> bool" where
  "IsSpace r =
     (if r \<le> 0xFF then r \<in> {0x09, 0x0A, 0x0B, 0x0C, 0x0D, 0x20, 0x85, 0xA0}
      else r = 0x1680 \<or> (0x2000 \<le> r \<and> r \<le> 0x200A) \<or> r = 0x2028 \<or> r = 0x2029
           \<or> r = 0x202F \<or> r = 0x205F \<or> r = 0x3000)"

definition RuneStart :: "nat \<Rightarrow> bool" where
  "RuneStart b \<longleftrightarrow> b AND 0xC0 \<noteq> 0x80"

text \<open>The loop \<open>for start--; start >= lim; start-- { if RuneStart(s[start]) { break } }\<close>.\<close>

function find_start :: "string \<Rightarrow> int \<Rightarrow> int \<Rightarrow> int" where
  "find_start s start lim =
     (if start \<ge> lim then
        (if RuneStart (byte_of (s ! nat start)) then start else find_start s (start - 1) lim)
      else start)"
  by pat_completeness auto

termination find_start
  by (relation "measure (\<lambda>(s, start, lim). nat (start - lim + 1))") auto

declare find_start.simps [simp del]

definition DecodeLastRuneInString :: "string \<Rightarrow> rune \<times> nat" where
  "DecodeLastRuneInString s =
     (let e = int (length s) in
      if e = 0 then (RuneError, 0)
      else
        let start = e - 1; r = byte_of (s ! nat start) in
        if r < RuneSelf then (r, 1)
        else
          let lim = (if e - 4 < 0 then 0 else e - 4);
              start = find_start s (start - 1) lim;
              start = (if start < 0 then 0 else start);
              (r, size) = DecodeRuneInString (drop (nat start) s)
          in if start + int size \<noteq> e then (RuneError, 1) else (r, size))"

fun indexFunc_loop :: "(nat \<times> rune) list \<Rightarrow> (rune \<Rightarrow> bool) \<Rightarrow> bool \<Rightarrow> int" where
  "indexFunc_loop [] f truth = -1"
| "indexFunc_loop ((i, r) # rest) f truth =
     (if f r = truth then int i else indexFunc_loop rest f truth)"

definition indexFunc :: "string \<Rightarrow> (rune \<Rightarrow> bool) \<Rightarrow> bool \<Rightarrow> int" where
  "indexFunc s f truth = indexFunc_loop (range_string s) f truth"

text \<open>
  \<open>lastIndexFunc\<close>: the loop \<open>for i := len(s); i > 0; \<dots>\<close> works on the prefix
  \<open>s[0:i]\<close>, which is the argument here.
\<close>

function lastIndexFunc :: "string \<Rightarrow> (rune \<Rightarrow> bool) \<Rightarrow> bool \<Rightarrow> int" where
  "lastIndexFunc s f truth =
     (if length s > 0 then
        let (r, size) = DecodeLastRuneInString s;
            i = length s - size
        in if f r = truth then int i else lastIndexFunc (take i s) f truth
      else -1)"
  by pat_completeness auto

termination lastIndexFunc
proof (relation "measure (\<lambda>(s, f, truth). length s)")
  show "wf (measure (\<lambda>(s, f, truth). length s))" by simp
next
  fix s :: string and f :: "rune \<Rightarrow> bool" and truth :: bool and x r size i
  assume ne: "0 < length s" and x: "x = DecodeLastRuneInString s" and rs: "(r, size) = x"
    and i: "i = length s - size"
  have fs: "find_start t a lim \<le> a" for t a lim
    by (induction t a lim rule: find_start.induct) (subst find_start.simps, auto)
  have "0 < snd (DecodeLastRuneInString s)"
  proof -
    define st0 where
      "st0 = find_start s (int (length s) - 1 - 1) (if int (length s) - 4 < 0 then 0 else int (length s) - 4)"
    define st where "st = (if st0 < 0 then 0 else st0)"
    define dr where "dr = DecodeRuneInString (drop (nat st) s)"
    have D: "DecodeLastRuneInString s =
        (if byte_of (s ! nat (int (length s) - 1)) < RuneSelf
         then (byte_of (s ! nat (int (length s) - 1)), 1)
         else if st + int (snd dr) \<noteq> int (length s) then (RuneError, 1) else dr)"
      using ne unfolding DecodeLastRuneInString_def Let_def dr_def st_def st0_def
      by (simp split: prod.splits)
    have "st0 \<le> int (length s) - 1 - 1"
      unfolding st0_def by (rule fs)
    then have "st < int (length s)"
      using ne by (simp add: st_def)
    then have "st + int (snd dr) = int (length s) \<Longrightarrow> 0 < snd dr"
      by (cases "snd dr") auto
    then show ?thesis
      unfolding D by auto
  qed
  then have "0 < size" using x rs by (metis snd_conv)
  then show "((take i s, f, truth), (s, f, truth)) \<in> measure (\<lambda>(s, f, truth). length s)"
    using ne i by simp
qed

declare lastIndexFunc.simps [simp del]

definition TrimLeftFunc :: "string \<Rightarrow> (rune \<Rightarrow> bool) \<Rightarrow> string" where
  "TrimLeftFunc s f =
     (let i = indexFunc s f False in if i = -1 then [] else drop (nat i) s)"

definition TrimRightFunc :: "string \<Rightarrow> (rune \<Rightarrow> bool) \<Rightarrow> string" where
  "TrimRightFunc s f =
     (let i = lastIndexFunc s f False;
          i = (if i \<ge> 0 \<and> byte_of (s ! nat i) \<ge> RuneSelf
               then i + int (snd (DecodeRuneInString (drop (nat i) s)))
               else i + 1)
      in take (nat i) s)"

definition TrimFunc :: "string \<Rightarrow> (rune \<Rightarrow> bool) \<Rightarrow> string" where
  "TrimFunc s f = TrimRightFunc (TrimLeftFunc s f) f"

text \<open>
  The second loop of \<open>TrimSpace\<close>, on \<open>s[start:stop]\<close>: it looks for the first ASCII
  non-space byte from the end.
\<close>

function TrimSpace_stop :: "string \<Rightarrow> string" where
  "TrimSpace_stop s =
     (if s = [] then []
      else
        let c = last s in
        if byte_of c \<ge> RuneSelf then TrimRightFunc s IsSpace
        else if \<not> asciiSpace c then s
        else TrimSpace_stop (butlast s))"
  by pat_completeness auto

termination TrimSpace_stop
  by (relation "measure length") auto

declare TrimSpace_stop.simps [simp del]

text \<open>
  \<open>TrimSpace\<close>: the first loop looks for the first ASCII non-space byte; a byte of
  \<open>0x80\<close> or more hands over to the Unicode-aware \<open>TrimFunc\<close>.
\<close>

fun TrimSpace :: "string \<Rightarrow> string" where
  "TrimSpace [] = TrimSpace_stop []"
| "TrimSpace (c # cs) =
     (if byte_of c \<ge> RuneSelf then TrimFunc (c # cs) IsSpace
      else if \<not> asciiSpace c then TrimSpace_stop (c # cs)
      else TrimSpace cs)"

declare TrimSpace.simps [simp del]

section \<open>Configuration\<close>

text \<open>The struct \<open>Flags\<close> of \<open>opt/opt.go\<close>; \<open>WrapWidth\<close> is a Go \<open>int\<close>.\<close>

record Flags =
  Decode :: bool
  IgnoreGarbage :: bool
  Wrap :: bool
  WrapWidth :: int

text \<open>
  The parameters given to the constructor: positional arguments and values of the
  option types \<open>DecodeFlag\<close>, \<open>IgnoreGarbageFlag\<close>, \<open>WrapFlag\<close> and \<open>WrapWidth\<close>.
\<close>

datatype parameter =
    Arg string
  | DecodeFlag bool
  | IgnoreGarbageFlag bool
  | WrapFlag bool
  | WrapWidthOpt int

text \<open>The \<open>Configure\<close> methods; a positional argument configures nothing.\<close>

fun Configure :: "parameter \<Rightarrow> Flags \<Rightarrow> Flags" where
  "Configure (DecodeFlag d) flags = flags\<lparr>Decode := d\<rparr>"
| "Configure (IgnoreGarbageFlag i) flags = flags\<lparr>IgnoreGarbage := i\<rparr>"
| "Configure (WrapFlag w) flags = flags\<lparr>Wrap := w\<rparr>"
| "Configure (WrapWidthOpt w) flags = flags\<lparr>WrapWidth := w\<rparr>"
| "Configure (Arg a) flags = flags"

record command =
  Positional :: "string list"
  Flags :: Flags

text \<open>
  \<open>opt.Args\<close> of the framework starts from the zero value of \<open>Flags\<close>, applies the
  \<open>Configure\<close> method of every option in the order given and collects the other
  parameters as positional arguments.
\<close>

definition Args :: "parameter list \<Rightarrow> command" where
  "Args parameters =
     \<lparr>Positional = concat (map (\<lambda>p. case p of Arg a \<Rightarrow> [a] | _ \<Rightarrow> []) parameters),
      Flags = foldl (\<lambda>flags p. Configure p flags)
                \<lparr>Decode = False, IgnoreGarbage = False, Wrap = False, WrapWidth = 0\<rparr> parameters\<rparr>"

definition Base64 :: "parameter list \<Rightarrow> command" where
  "Base64 parameters =
     (let cmd = Args parameters
      in if WrapWidth (Flags cmd) = 0 then cmd\<lparr>Flags := (Flags cmd)\<lparr>WrapWidth := 76\<rparr>\<rparr> else cmd)"

section \<open>Input sources and output sinks\<close>

text \<open>
  An input source is a reader over the bytes \<open>rd_data\<close> it still has to deliver; when
  they are used up it reports \<open>io.EOF\<close>, or the failure \<open>rd_fail\<close> if there is one.
  \<open>Read\<close> fills the buffer as far as the data goes (as \<open>strings.Reader\<close>,
  \<open>bytes.Buffer\<close> and files do); \<open>rd_calls\<close> counts the calls.
\<close>

record Reader =
  rd_data :: string
  rd_fail :: "string option"
  rd_calls :: nat

definition Read :: "nat \<Rightarrow> Reader \<Rightarrow> (string \<times> error option) \<times> Reader" where
  "Read n reader =
     (if rd_data reader = [] then
        (([], Some (case rd_fail reader of None \<Rightarrow> io_EOF | Some msg \<Rightarrow> ReadError msg)),
         reader\<lparr>rd_calls := rd_calls reader + 1\<rparr>)
      else
        ((take n (rd_data reader), None),
         reader\<lparr>rd_data := drop n (rd_data reader), rd_calls := rd_calls reader + 1\<rparr>))"

text \<open>
  What an invocation works on: the context, the input source, the output sink and
  the error channel. The sinks hold the bytes written to them so far.
\<close>

record World =
  w_ctx :: Context
  w_in :: Reader
  w_out :: string
  w_err :: string

section \<open>The encoder\<close>

definition chunkSize :: nat where
  "chunkSize = 32 * 1024"

text \<open>The read loop of \<open>encodeSource\<close>.\<close>

function encodeSource_read :: "Context \<Rightarrow> Reader \<Rightarrow> string \<Rightarrow> (error + string) \<times> Context \<times> Reader" where
  "encodeSource_read c reader allData =
     (case CheckContextCancellation c of
        (Some err, c') \<Rightarrow> (Inl err, c', reader)
      | (None, c') \<Rightarrow>
          (case Read chunkSize reader of
             ((buf, err), reader') \<Rightarrow>
               let allData' = (if length buf > 0 then allData @ buf else allData) in
               (case err of
                  Some io_EOF \<Rightarrow> (Inr allData', c', reader')
                | Some e \<Rightarrow> (Inl e, c', reader')
                | None \<Rightarrow> encodeSource_read c' reader' allData')))"
  by pat_completeness auto

termination encodeSource_read
  by (relation "measure (\<lambda>(c, reader, allData). length (rd_data reader))")
     (auto simp: Read_def chunkSize_def split: if_splits)

declare encodeSource_read.simps [simp del]

text \<open>
  \<open>encodeSource\<close>. \<open>fmt.Fprintln\<close> writes the text and a newline; the value it returns
  is dropped by the source.
\<close>

definition encodeSource :: "Flags \<Rightarrow> World \<Rightarrow> error option \<times> World" where
  "encodeSource flags w =
     (case CheckContextCancellation (w_ctx w) of
        (Some err, c) \<Rightarrow> (Some err, w\<lparr>w_ctx := c\<rparr>)
      | (None, c) \<Rightarrow>
          (case encodeSource_read c (w_in w) [] of
             (Inl err, c', reader) \<Rightarrow> (Some err, w\<lparr>w_ctx := c', w_in := reader\<rparr>)
           | (Inr allData, c', reader) \<Rightarrow>
               let encoded = EncodeToString allData in
               if (Wrap flags \<or> WrapWidth flags > 0) \<and> WrapWidth flags > 0 then
                 (case wrapStringWithContext c' encoded (WrapWidth flags) of
                    (Inl err, c'') \<Rightarrow> (Some err, w\<lparr>w_ctx := c'', w_in := reader\<rparr>)
                  | (Inr wrapped, c'') \<Rightarrow>
                      (None, w\<lparr>w_ctx := c'', w_in := reader,
                                w_out := w_out w @ wrapped @ [CHR 0x0A]\<rparr>))
               else
                 (None, w\<lparr>w_ctx := c', w_in := reader,
                           w_out := w_out w @ encoded @ [CHR 0x0A]\<rparr>)))"

section \<open>The decoder\<close>

text \<open>
  \<open>bufio.Scanner\<close> with its default split function \<open>ScanLines\<close>: a token is the text
  up to the next newline, or what is left at the end of the input, without a
  trailing carriage return. The buffer of a scanner holds at most
  \<open>MaxScanTokenSize\<close> bytes, the line and its newline included; a line that does not
  fit stops the scan with \<open>ErrTooLong\<close>. A failure of the source is reported when
  its data is used up.
\<close>

definition MaxScanTokenSize :: nat where
  "MaxScanTokenSize = 64 * 1024"

record Scanner =
  sc_reader :: Reader
  sc_token :: string
  sc_err :: "error option"

definition NewScanner :: "Reader \<Rightarrow> Scanner" where
  "NewScanner reader = \<lparr>sc_reader = reader, sc_token = [], sc_err = None\<rparr>"

definition dropCR :: "string \<Rightarrow> string" where
  "dropCR data = (if length data > 0 \<and> last data = CHR 0x0D then butlast data else data)"

definition Scan :: "Scanner \<Rightarrow> bool \<times> Scanner" where
  "Scan sc =
     (let reader = sc_reader sc; buf = rd_data reader in
      if sc_err sc \<noteq> None then (False, sc)
      else if buf = [] then
        (False, sc\<lparr>sc_err := Some (case rd_fail reader of None \<Rightarrow> io_EOF | Some msg \<Rightarrow> ReadError msg)\<rparr>)
      else
        let line = takeWhile (\<lambda>c. c \<noteq> CHR 0x0A) buf in
        if length line \<ge> MaxScanTokenSize then (False, sc\<lparr>sc_err := Some ErrTooLong\<rparr>)
        else
          (True, sc\<lparr>sc_token := dropCR line,
                     sc_reader := reader\<lparr>rd_data := drop (length line + 1) buf\<rparr>\<rparr>))"

text \<open>\<open>Scanner.Err\<close>: the first error met that is not \<open>io.EOF\<close>.\<close>

definition Scanner_Err :: "Scanner \<Rightarrow> error option" where
  "Scanner_Err sc = (case sc_err sc of Some io_EOF \<Rightarrow> None | e \<Rightarrow> e)"

text \<open>
  Modelled from the spec: \<open>yup.ScanWithContext\<close> of the framework, which is not among the
  sources. Before each line is consumed it checks the cancellation signal, and it
  scans no further once the signal is cancelled.
\<close>

definition ScanWithContext :: "Context \<Rightarrow> Scanner \<Rightarrow> bool \<times> Context \<times> Scanner" where
  "ScanWithContext c sc =
     (case CheckContextCancellation c of
        (Some err, c') \<Rightarrow> (False, c', sc)
      | (None, c') \<Rightarrow> (case Scan sc of (ok, sc') \<Rightarrow> (ok, c', sc')))"

text \<open>The scan loop of \<open>decodeSource\<close>; \<open>encodedData\<close> is the \<open>strings.Builder\<close>.\<close>

function decodeSource_scan ::
  "Flags \<Rightarrow> Context \<Rightarrow> Scanner \<Rightarrow> string \<Rightarrow> (error + string) \<times> Context \<times> Scanner" where
  "decodeSource_scan flags c sc encodedData =
     (case ScanWithContext c sc of
        (False, c', sc') \<Rightarrow> (Inr encodedData, c', sc')
      | (True, c', sc') \<Rightarrow>
          let line = TrimSpace (sc_token sc') in
          if IgnoreGarbage flags then
            (case removeNonBase64WithContext c' line of
               (Inl err, c'') \<Rightarrow> (Inl err, c'', sc')
             | (Inr cleaned, c'') \<Rightarrow> decodeSource_scan flags c'' sc' (encodedData @ cleaned))
          else decodeSource_scan flags c' sc' (encodedData @ line))"
  by pat_completeness auto

termination decodeSource_scan
  by (relation "measure (\<lambda>(flags, c, sc, encodedData). length (rd_data (sc_reader sc)))")
     (auto simp: ScanWithContext_def Scan_def Let_def split: if_splits prod.splits option.splits)

declare decodeSource_scan.simps [simp del]

text \<open>The text of an error, as \<open>%v\<close> prints it.\<close>

function Itoa :: "nat \<Rightarrow> string" where
  "Itoa n = (if n < 10 then [char_of (48 + n)] else Itoa (n div 10) @ [char_of (48 + n mod 10)])"
  by pat_completeness auto

termination Itoa
  by (relation "measure id") auto

declare Itoa.simps [simp del]

fun Error :: "error \<Rightarrow> string" where
  "Error Canceled = ''context canceled''"
| "Error io_EOF = ''EOF''"
| "Error (ReadError msg) = msg"
| "Error ErrTooLong = ''bufio.Scanner: token too long''"
| "Error (CorruptInputError n) = ''illegal base64 data at input byte '' @ Itoa n"

text \<open>\<open>fmt.Fprintf(stderr, "base64: %v\n", err)\<close>.\<close>

definition report :: "string \<Rightarrow> error \<Rightarrow> string" where
  "report sink err = sink @ ''base64: '' @ Error err @ [CHR 0x0A]"

text \<open>\<open>decodeSource\<close>. The value returned by \<open>output.Write\<close> is dropped by the source.\<close>

definition decodeSource :: "Flags \<Rightarrow> World \<Rightarrow> error option \<times> World" where
  "decodeSource flags w =
     (case CheckContextCancellation (w_ctx w) of
        (Some err, c) \<Rightarrow> (Some err, w\<lparr>w_ctx := c\<rparr>)
      | (None, c) \<Rightarrow>
          (case decodeSource_scan flags c (NewScanner (w_in w)) [] of
             (Inl err, c', sc) \<Rightarrow> (Some err, w\<lparr>w_ctx := c', w_in := sc_reader sc\<rparr>)
           | (Inr encodedData, c', sc) \<Rightarrow>
               (case CheckContextCancellation c' of
                  (Some err, c'') \<Rightarrow> (Some err, w\<lparr>w_ctx := c'', w_in := sc_reader sc\<rparr>)
                | (None, c'') \<Rightarrow>
                    (case Scanner_Err sc of
                       Some err \<Rightarrow>
                         (Some err, w\<lparr>w_ctx := c'', w_in := sc_reader sc,
                                       w_err := report (w_err w) err\<rparr>)
                     | None \<Rightarrow>
                         (case DecodeString encodedData of
                            (decoded, Some err) \<Rightarrow>
                              (Some err, w\<lparr>w_ctx := c'', w_in := sc_reader sc,
                                            w_err := report (w_err w) err\<rparr>)
                          | (decoded, None) \<Rightarrow>
                              (None, w\<lparr>w_ctx := c'', w_in := sc_reader sc,
                                        w_out := w_out w @ decoded\<rparr>))))))"

section \<open>Specification-side notions\<close>

text \<open>The canonical base64 alphabet together with the padding character.\<close>

definition base64_chars :: "char set" where
  "base64_chars = set ''ABCDEFGHIJKLMNOPQRSTUVWXYZabcdefghijklmnopqrstuvwxyz0123456789+/=''"

subsection \<open>Wrapping, as the specification words it\<close>

text \<open>
  The segments of \<open>W\<close> characters a text is cut into, the last one with what is left,
  and the text made of lines separated by newlines (none after the last line).
\<close>

function chunks :: "nat \<Rightarrow> 'a list \<Rightarrow> 'a list list" where
  "chunks W xs = (if W = 0 \<or> length xs \<le> W then [xs] else take W xs # chunks W (drop W xs))"
  by pat_completeness auto

termination chunks
  by (relation "measure (\<lambda>(W, xs). length xs)") auto

declare chunks.simps [simp del]

fun join_with :: "'a \<Rightarrow> 'a list list \<Rightarrow> 'a list" where
  "join_with nl [] = []"
| "join_with nl [l] = l"
| "join_with nl (l # ls) = l @ [nl] @ join_with nl ls"

definition join_lines :: "string list \<Rightarrow> string" where
  "join_lines ls = join_with (CHR 0x0A) ls"

text \<open>The runes (logical characters) of a string, and the strings of single-byte characters.\<close>

definition runes :: "string \<Rightarrow> rune list" where
  "runes s = map snd (range_string s)"

definition ascii :: "string \<Rightarrow> bool" where
  "ascii s \<longleftrightarrow> (\<forall>c\<in>set s. byte_of c < 0x80)"


text \<open>What the loop of the wrapper writes for single-byte text that starts at offset \<open>i\<close>.\<close>

fun wrap_at :: "nat \<Rightarrow> nat \<Rightarrow> string \<Rightarrow> string" where
  "wrap_at i W [] = []"
| "wrap_at i W (c # cs) = (if i > 0 \<and> i mod W = 0 then [CHR 0x0A] else []) @ c # wrap_at (i + 1) W cs"

subsection \<open>The text a source holds for the decoder\<close>

text \<open>
  The tokens the scanner delivers for the data \<open>buf\<close> of a source, and whether the
  scan stops at a line that is too long for the buffer.
\<close>

function scan_tokens :: "string \<Rightarrow> string list \<times> bool" where
  "scan_tokens buf =
     (if buf = [] then ([], False)
      else
        let line = takeWhile (\<lambda>c. c \<noteq> CHR 0x0A) buf in
        if length line \<ge> MaxScanTokenSize then ([], True)
        else
          case scan_tokens (drop (length line + 1) buf) of
            (ts, too_long) \<Rightarrow> (dropCR line # ts, too_long))"
  by pat_completeness auto

termination scan_tokens
  by (relation "measure length") auto

declare scan_tokens.simps [simp del]

text \<open>What the body of the scan loop appends for a line, when no check fails.\<close>

definition process_line :: "Flags \<Rightarrow> string \<Rightarrow> string" where
  "process_line flags text =
     (if IgnoreGarbage flags then removeNonBase64 (TrimSpace text) else TrimSpace text)"

definition source_text :: "Flags \<Rightarrow> string \<Rightarrow> string" where
  "source_text flags buf = concat (map (process_line flags) (fst (scan_tokens buf)))"

text \<open>The error the scanner ends with: a line too long, a read failure, or the end of the input.\<close>

definition scan_end :: "Reader \<Rightarrow> error" where
  "scan_end reader =
     (if snd (scan_tokens (rd_data reader)) then ErrTooLong
      else case rd_fail reader of None \<Rightarrow> io_EOF | Some msg \<Rightarrow> ReadError msg)"

subsection \<open>The decoding table, by arithmetic\<close>

text \<open>The value of \<open>decodeMap\<close> at a byte, and the byte of \<open>encodeStd\<close> at an index.\<close>

definition decode_byte :: "nat \<Rightarrow> nat" where
  "decode_byte b =
     (if 65 \<le> b \<and> b \<le> 90 then b - 65
      else if 97 \<le> b \<and> b \<le> 122 then b - 71
      else if 48 \<le> b \<and> b \<le> 57 then b + 4
      else if b = 43 then 62 else if b = 47 then 63 else 255)"

subsection \<open>Cancellation seen by an invocation\<close>

text \<open>
  An invocation takes the context from \<open>c\<close> to \<open>c'\<close>. One of the checks it made saw
  the signal cancelled when it made a check at or after the one the signal fires at.
\<close>

definition observed :: "Context \<Rightarrow> Context \<Rightarrow> bool" where
  "observed c c' \<longleftrightarrow> polls c < polls c' \<and> (\<exists>d. cancel_at c = Some d \<and> d < polls c')"

definition steps :: "Context \<Rightarrow> Context \<Rightarrow> bool" where
  "steps c c' \<longleftrightarrow> cancel_at c' = cancel_at c \<and> polls c \<le> polls c'"

subsection \<open>Padded base64 text\<close>

text \<open>
  Valid padded standard base64 (RFC 4648): groups of four characters of the alphabet,
  the last of which may end in one or two padding characters. The text the decoder
  looks at is the text without the carriage returns and line feeds it skips.
\<close>

fun valid_base64 :: "string \<Rightarrow> bool" where
  "valid_base64 [] = True"
| "valid_base64 [a, b, c, d] =
     (a \<in> set encodeStd \<and> b \<in> set encodeStd \<and>
      ((c \<in> set encodeStd \<and> (d \<in> set encodeStd \<or> d = padChar)) \<or> (c = padChar \<and> d = padChar)))"
| "valid_base64 (a # b # c # d # rest) =
     (a \<in> set encodeStd \<and> b \<in> set encodeStd \<and> c \<in> set encodeStd \<and> d \<in> set encodeStd \<and>
      valid_base64 rest)"
| "valid_base64 _ = False"

definition without_newlines :: "string \<Rightarrow> string" where
  "without_newlines s = filter (\<lambda>c. \<not> is_newline c) s"


section \<open>Facts about UTF-8 decoding\<close>

lemma and_1f: "(x::nat) AND 0x1F = x mod 32"
  using take_bit_eq_mask[of 5 x] by (simp add: take_bit_eq_mod mask_eq_exp_minus_1)

lemma and_3f: "(x::nat) AND 0x3F = x mod 64"
  using take_bit_eq_mask[of 6 x] by (simp add: take_bit_eq_mod mask_eq_exp_minus_1)

lemma and_0f: "(x::nat) AND 0x0F = x mod 16"
  using take_bit_eq_mask[of 4 x] by (simp add: take_bit_eq_mod mask_eq_exp_minus_1)

lemma and_07: "(x::nat) AND 0x07 = x mod 8"
  using take_bit_eq_mask[of 3 x] by (simp add: take_bit_eq_mod mask_eq_exp_minus_1)

lemma or_ge1: "(a::nat) \<le> a OR b"
  by (metis of_nat_0_le_iff of_nat_le_iff of_nat_or_eq or_greater_eq)

lemma or_ge2: "(b::nat) \<le> a OR b"
  using or_ge1[of b a] by (simp add: or.commute)

lemma mod_shift: "(m::nat) * k \<le> b \<Longrightarrow> b < m * k + m \<Longrightarrow> b mod m = b - m * k"
proof -
  assume a: "m * k \<le> b" "b < m * k + m"
  then obtain d where d: "b = m * k + d" "d < m"
    by (metis add_diff_inverse_nat add_less_cancel_left not_less)
  then show ?thesis by simp
qed

lemma decode_ascii:
  "s \<noteq> [] \<Longrightarrow> byte_of (hd s) < 0x80 \<Longrightarrow> DecodeRuneInString s = (byte_of (hd s), 1)"
  by (cases s) (simp_all add: DecodeRuneInString_def RuneSelf_def)

lemma first_info_cases:
  assumes "first_info b = Some (sz, lo, hi)"
  shows "(sz = 2 \<and> 128 \<le> push_bit 6 (b AND 0x1F) \<or>
          sz = 3 \<and> (\<forall>x. lo \<le> x \<and> x \<le> hi \<longrightarrow>
             128 \<le> push_bit 12 (b AND 0x0F) \<or> 128 \<le> push_bit 6 (x AND 0x3F)) \<or>
          sz = 4 \<and> (\<forall>x. lo \<le> x \<and> x \<le> hi \<longrightarrow>
             128 \<le> push_bit 18 (b AND 0x07) \<or> 128 \<le> push_bit 12 (x AND 0x3F)))
         \<and> 0x80 \<le> lo"
proof -
  have m32: "194 \<le> b \<Longrightarrow> b \<le> 223 \<Longrightarrow> 2 \<le> b mod 32"
    using mod_shift[of 32 6 b] by simp
  have m16: "225 \<le> b \<Longrightarrow> b \<le> 239 \<Longrightarrow> 1 \<le> b mod 16"
    using mod_shift[of 16 14 b] by simp
  have m64a: "160 \<le> x \<Longrightarrow> x \<le> 191 \<Longrightarrow> 32 \<le> x mod 64" for x :: nat
    using mod_shift[of 64 2 x] by simp
  have m64b: "144 \<le> x \<Longrightarrow> x \<le> 191 \<Longrightarrow> 16 \<le> x mod 64" for x :: nat
    using mod_shift[of 64 2 x] by simp
  have m8: "241 \<le> b \<Longrightarrow> b \<le> 244 \<Longrightarrow> 1 \<le> b mod 8"
    using mod_shift[of 8 30 b] by simp
  consider "0xC2 \<le> b \<and> b \<le> 0xDF" "sz = 2" "lo = 0x80"
    | "b = 0xE0" "sz = 3" "lo = 0xA0" "hi = 0xBF"
    | "0xE1 \<le> b \<and> b \<le> 0xEF" "sz = 3" "0x80 \<le> lo"
    | "b = 0xF0" "sz = 4" "lo = 0x90" "hi = 0xBF"
    | "0xF1 \<le> b \<and> b \<le> 0xF4" "sz = 4" "0x80 \<le> lo"
    using assms unfolding first_info_def by (simp split: if_splits)
  then show ?thesis
  proof cases
    case 1
    then show ?thesis using m32 by (simp add: and_1f push_bit_eq_mult)
  next
    case 2
    then show ?thesis by (auto simp add: and_3f push_bit_eq_mult dest!: m64a)
  next
    case 3
    then show ?thesis using m16 by (simp add: and_0f push_bit_eq_mult)
  next
    case 4
    then show ?thesis by (auto simp add: and_3f push_bit_eq_mult dest!: m64b)
  next
    case 5
    then show ?thesis using m8 by (simp add: and_07 push_bit_eq_mult)
  qed
qed

lemma first_info_hi: "first_info b = Some (sz, lo, hi) \<Longrightarrow> hi \<le> 0xBF"
  unfolding first_info_def by (simp split: if_splits)

text \<open>
  A byte of \<open>0x80\<close> or more never decodes to an ASCII rune, and the bytes consumed
  with it are all \<open>0x80\<close> or more.
\<close>

lemma decode_nonascii:
  assumes "s \<noteq> []" "0x80 \<le> byte_of (hd s)"
  shows "\<exists>r n. DecodeRuneInString s = (r, n) \<and> 0x80 \<le> r \<and> 1 \<le> n \<and> n \<le> length s
           \<and> (\<forall>c\<in>set (take n s). 0x80 \<le> byte_of c)"
proof -
  obtain c cs where s: "s = c # cs" using assms(1) by (cases s) auto
  have c: "0x80 \<le> byte_of c" using assms(2) s by simp
  have err: "?thesis" if "DecodeRuneInString s = (RuneError, 1)"
    using that s c by (simp add: RuneError_def)
  show ?thesis
  proof (cases "first_info (byte_of c)")
    case None
    then show ?thesis using c s by (intro err) (simp add: DecodeRuneInString_def RuneSelf_def)
  next
    case (Some t)
    obtain sz lo hi where t: "t = (sz, lo, hi)" by (cases t) auto
    note fi = first_info_cases[OF Some[unfolded t]] first_info_hi[OF Some[unfolded t]]
    show ?thesis
    proof (cases "length s < sz \<or> byte_of (s ! 1) < lo \<or> hi < byte_of (s ! 1)")
      case True
      then show ?thesis using c s Some t
        by (intro err) (auto simp add: DecodeRuneInString_def RuneSelf_def Let_def)
    next
      case F1: False
      have b1: "0x80 \<le> byte_of (s ! 1)" using F1 fi by simp
      have len: "sz \<le> length s" using F1 by simp
      have sz: "sz = 2 \<or> sz = 3 \<or> sz = 4" using fi by auto
      have D: "DecodeRuneInString s =
         (let s0 = byte_of c; s1 = byte_of (s ! 1) in
           if sz \<le> 2 then (push_bit 6 (s0 AND 0x1F) OR (s1 AND 0x3F), 2)
           else
             let s2 = byte_of (s ! 2) in
             if s2 < 0x80 \<or> 0xBF < s2 then (RuneError, 1)
             else if sz \<le> 3 then
               (push_bit 12 (s0 AND 0x0F) OR push_bit 6 (s1 AND 0x3F) OR (s2 AND 0x3F), 3)
             else
               let s3 = byte_of (s ! 3) in
               if s3 < 0x80 \<or> 0xBF < s3 then (RuneError, 1)
               else
                 (push_bit 18 (s0 AND 0x07) OR push_bit 12 (s1 AND 0x3F)
                    OR push_bit 6 (s2 AND 0x3F) OR (s3 AND 0x3F), 4))"
        using F1 c s Some t by (simp add: DecodeRuneInString_def RuneSelf_def Let_def)
      have tk2: "set (take 2 s) = {c, s ! 1}" if "2 \<le> length s"
        using that s by (cases cs) auto
      have tk3: "set (take 3 s) = {c, s ! 1, s ! 2}" if "3 \<le> length s"
        using that s by (cases cs; cases "tl cs") auto
      have tk4: "set (take 4 s) = {c, s ! 1, s ! 2, s ! 3}" if "4 \<le> length s"
        using that s by (cases cs; cases "tl cs"; cases "tl (tl cs)") auto
      from sz show ?thesis
      proof (elim disjE)
        assume "sz = 2"
        then show ?thesis using D fi len c b1 tk2
          by (auto simp: Let_def intro: order_trans[OF _ or_ge1])
      next
        assume z: "sz = 3"
        show ?thesis
        proof (cases "byte_of (s ! 2) < 0x80 \<or> 0xBF < byte_of (s ! 2)")
          case True then show ?thesis using D z by (intro err) (auto simp: Let_def)
        next
          case False
          moreover have "128 \<le> push_bit 12 (byte_of c AND 0x0F)
              \<or> 128 \<le> push_bit 6 (byte_of (s ! 1) AND 0x3F)"
            using fi z F1 by auto
          then have "128 \<le> push_bit 12 (byte_of c AND 0x0F)
              OR push_bit 6 (byte_of (s ! 1) AND 0x3F) OR (byte_of (s ! 2) AND 0x3F)"
            by (meson or_ge1 or_ge2 order_trans)
          ultimately show ?thesis using D z len c b1 tk3 by (auto simp: Let_def)
        qed
      next
        assume z: "sz = 4"
        show ?thesis
        proof (cases "byte_of (s ! 2) < 0x80 \<or> 0xBF < byte_of (s ! 2)")
          case True then show ?thesis using D z by (intro err) (auto simp: Let_def)
        next
          case F2: False
          show ?thesis
          proof (cases "byte_of (s ! 3) < 0x80 \<or> 0xBF < byte_of (s ! 3)")
            case True then show ?thesis using D z F2 by (intro err) (auto simp: Let_def)
          next
            case False
            moreover have "128 \<le> push_bit 18 (byte_of c AND 0x07)
                \<or> 128 \<le> push_bit 12 (byte_of (s ! 1) AND 0x3F)"
              using fi z F1 by auto
            then have "128 \<le> push_bit 18 (byte_of c AND 0x07)
                OR push_bit 12 (byte_of (s ! 1) AND 0x3F)
                OR push_bit 6 (byte_of (s ! 2) AND 0x3F) OR (byte_of (s ! 3) AND 0x3F)"
              by (meson or_ge1 or_ge2 order_trans)
            ultimately show ?thesis using D z len c b1 tk4 F2 by (auto simp: Let_def)
          qed
        qed
      qed
    qed
  qed
qed

section \<open>The alphabet filter keeps exactly the alphabet\<close>

lemma keep_rune_alphabet: "c \<in> base64_chars \<Longrightarrow> keep_rune (byte_of c)"
  unfolding base64_chars_def by (auto simp: keep_rune_def byte_of_def)

lemma alphabet_keep_rune: "keep_rune (byte_of c) \<Longrightarrow> c \<in> base64_chars"
proof -
  assume k: "keep_rune (byte_of c)"
  have c: "c = char_of (byte_of c)" by (simp add: byte_of_def)
  let ?n = "byte_of c"
  from k have "?n \<in> {65..<91} \<union> {97..<123} \<union> {48..<58} \<union> {43, 47, 61}"
    unfolding keep_rune_def byte_of_def by auto
  then have "?n \<in> set ([65..<91] @ [97..<123] @ [48..<58] @ [43, 47, 61])"
    unfolding set_append set_upt by simp
  then have "char_of ?n \<in> char_of ` set ([65..<91] @ [97..<123] @ [48..<58] @ [43, 47, 61])"
    by (rule imageI)
  also have "char_of ` set ([65..<91] @ [97..<123] @ [48..<58] @ [43, 47, 61::nat]) = base64_chars"
    unfolding base64_chars_def set_map[symmetric] by code_simp
  finally show ?thesis using c by simp
qed

lemma keep_rune_iff: "keep_rune (byte_of c) \<longleftrightarrow> c \<in> base64_chars"
  using keep_rune_alphabet alphabet_keep_rune by blast

lemma keep_rune_ascii: "keep_rune r \<Longrightarrow> r < 0x80"
  by (auto simp: keep_rune_def byte_of_def)

lemma base64_chars_ascii: "c \<in> base64_chars \<Longrightarrow> byte_of c < 0x80"
  using keep_rune_alphabet keep_rune_ascii by blast

lemma WriteRune_ascii: "r < 0x80 \<Longrightarrow> WriteRune b r = b @ [char_of r]"
  by (simp add: WriteRune_def AppendRune_def)

lemma decode_filter:
  assumes "s \<noteq> []"
  shows "\<exists>r n. DecodeRuneInString s = (r, n) \<and> 1 \<le> n \<and> n \<le> length s \<and>
           filter (\<lambda>c. c \<in> base64_chars) (take n s) = (if keep_rune r then [char_of r] else [])"
proof -
  obtain c cs where s: "s = c # cs" using assms by (cases s) auto
  show ?thesis
  proof (cases "byte_of c < 0x80")
    case True
    then have "DecodeRuneInString s = (byte_of c, 1)"
      using decode_ascii[of s] s by simp
    moreover have "char_of (byte_of c) = c"
      by (simp add: byte_of_def)
    ultimately show ?thesis
      using s by (simp add: keep_rune_iff)
  next
    case False
    then obtain r n where D: "DecodeRuneInString s = (r, n)" and r: "0x80 \<le> r"
      and n: "1 \<le> n" "n \<le> length s" and bs: "\<forall>c\<in>set (take n s). 0x80 \<le> byte_of c"
      using decode_nonascii[of s] s by auto
    have nk: "\<not> keep_rune r" using r keep_rune_ascii[of r] by auto
    have "filter (\<lambda>c. c \<in> base64_chars) (take n s) = []"
      using bs base64_chars_ascii by (fastforce simp: filter_empty_conv)
    then show ?thesis using D n nk by simp
  qed
qed

lemma removeNonBase64_loop_filter:
  "removeNonBase64_loop (range_from off s) acc = acc @ filter (\<lambda>c. c \<in> base64_chars) s"
proof (induction off s arbitrary: acc rule: range_from.induct)
  case (1 off s)
  show ?case
  proof (cases "s = []")
    case True
    then show ?thesis by (simp add: range_from.simps)
  next
    case False
    then obtain r n where D: "DecodeRuneInString s = (r, n)" and n: "1 \<le> n" "n \<le> length s"
      and fl: "filter (\<lambda>c. c \<in> base64_chars) (take n s)
                 = (if keep_rune r then [char_of r] else [])"
      using decode_filter[of s] by auto
    have IH: "removeNonBase64_loop (range_from (off + n) (drop n s)) acc'
               = acc' @ filter (\<lambda>c. c \<in> base64_chars) (drop n s)" for acc'
      using "1.IH"[OF False D[symmetric] refl] by simp
    have W: "keep_rune r \<Longrightarrow> WriteRune acc r = acc @ [char_of r]"
      using keep_rune_ascii[of r] by (simp add: WriteRune_ascii)
    have "filter (\<lambda>c. c \<in> base64_chars) s
            = filter (\<lambda>c. c \<in> base64_chars) (take n s) @ filter (\<lambda>c. c \<in> base64_chars) (drop n s)"
      by (metis append_take_drop_id filter_append)
    then have split: "filter (\<lambda>c. c \<in> base64_chars) s
            = (if keep_rune r then [char_of r] else []) @ filter (\<lambda>c. c \<in> base64_chars) (drop n s)"
      using fl by simp
    have "range_from off s = (off, r) # range_from (off + n) (drop n s)"
      using False D by (subst range_from.simps) simp
    then show ?thesis
      using IH W split by simp
  qed
qed

section \<open>Claims\<close>

text \<open>
  Claim C8. For every string \<open>s\<close>, \<open>removeNonBase64 s\<close> is exactly the subsequence of
  \<open>s\<close> made of the characters \<open>A-Z\<close>, \<open>a-z\<close>, \<open>0-9\<close>, \<open>+\<close>, \<open>/\<close> and \<open>=\<close>, in their
  original order; in particular a string of such characters only is returned
  unchanged.
\<close>

theorem removeNonBase64_is_filter:
  "removeNonBase64 s = filter (\<lambda>c. c \<in> base64_chars) s \<and>
   (set s \<subseteq> base64_chars \<longrightarrow> removeNonBase64 s = s)"
proof -
  have "removeNonBase64 s = filter (\<lambda>c. c \<in> base64_chars) s"
    unfolding removeNonBase64_def range_string_def
    using removeNonBase64_loop_filter[of 0 s "[]"] by simp
  moreover have "set s \<subseteq> base64_chars \<Longrightarrow> filter (\<lambda>c. c \<in> base64_chars) s = s"
    by (simp add: subset_iff)
  ultimately show ?thesis by simp
qed

theorem removeNonBase64_is_filter_witness:
  "removeNonBase64 ''SGVs bG8=!'' = ''SGVsbG8='' \<and> removeNonBase64 ''SGVsbG8='' = ''SGVsbG8=''"
proof -
  have "set ''SGVsbG8='' \<subseteq> base64_chars"
    by (simp add: base64_chars_def)
  then show ?thesis
    using removeNonBase64_is_filter[of "''SGVs bG8=!''"] removeNonBase64_is_filter[of "''SGVsbG8=''"]
    by (simp add: base64_chars_def)
qed

section \<open>The cancellation-aware passes when the signal never fires\<close>

lemma Check_never:
  "cancel_at c = None \<Longrightarrow> CheckContextCancellation c = (None, c\<lparr>polls := polls c + 1\<rparr>)"
  by (simp add: CheckContextCancellation_def cancelled_def)

lemma wrap_loop_never:
  "cancel_at c = None \<Longrightarrow>
     \<exists>c'. wrapStringWithContext_loop width xs result c = (Inr (wrapString_loop width xs result), c')
          \<and> cancel_at c' = None"
proof (induction xs arbitrary: result c)
  case Nil
  then show ?case by simp
next
  case (Cons x xs)
  obtain i ch where x: "x = (i, ch)" by (cases x) auto
  have n: "cancel_at (c\<lparr>polls := polls c + 1\<rparr>) = None" using Cons.prems by simp
  show ?case
    using Cons.IH[OF Cons.prems] Cons.IH[OF n] Cons.prems
    by (simp add: x Check_never Let_def)
qed

lemma filter_loop_never:
  "cancel_at c = None \<Longrightarrow>
     \<exists>c'. removeNonBase64WithContext_loop xs result c = (Inr (removeNonBase64_loop xs result), c')
          \<and> cancel_at c' = None"
proof (induction xs arbitrary: result c)
  case Nil
  then show ?case by simp
next
  case (Cons x xs)
  obtain i ch where x: "x = (i, ch)" by (cases x) auto
  have n: "cancel_at (c\<lparr>polls := polls c + 1\<rparr>) = None" using Cons.prems by simp
  show ?case
    using Cons.IH[OF Cons.prems] Cons.IH[OF n] Cons.prems
    by (simp add: x Check_never keep_rune_def)
qed

lemma wrapStringWithContext_never:
  "cancel_at c = None \<Longrightarrow>
     \<exists>c'. wrapStringWithContext c s width = (Inr (wrapString s width), c') \<and> cancel_at c' = None"
  using wrap_loop_never[of c width "range_string s" "[]"]
  by (simp add: wrapStringWithContext_def wrapString_def)

lemma removeNonBase64WithContext_never:
  "cancel_at c = None \<Longrightarrow>
     \<exists>c'. removeNonBase64WithContext c s = (Inr (removeNonBase64 s), c') \<and> cancel_at c' = None"
  using filter_loop_never[of c "range_string s" "[]"]
  by (simp add: removeNonBase64WithContext_def removeNonBase64_def)

text \<open>
  Claim C10. When the cancellation signal never fires, \<open>wrapStringWithContext\<close> returns
  the string \<open>wrapString\<close> returns and no error, and \<open>removeNonBase64WithContext\<close>
  returns the string \<open>removeNonBase64\<close> returns and no error.
\<close>

theorem with_context_refines:
  "cancel_at c = None \<Longrightarrow>
     fst (wrapStringWithContext c s width) = Inr (wrapString s width) \<and>
     fst (removeNonBase64WithContext c s) = Inr (removeNonBase64 s)"
  using wrapStringWithContext_never[of c s width] removeNonBase64WithContext_never[of c s]
  by auto

theorem with_context_refines_witness:
  "fst (wrapStringWithContext \<lparr>polls = 0, cancel_at = None\<rparr> ''SGVsbG8gV29ybGQ='' 10)
     = Inr ''SGVsbG8gV2\<newline>9ybGQ='' \<and>
   fst (removeNonBase64WithContext \<lparr>polls = 0, cancel_at = None\<rparr> ''SGVs bG8=!'')
     = Inr ''SGVsbG8=''"
proof -
  have w: "wrapString ''SGVsbG8gV29ybGQ='' 10 = ''SGVsbG8gV2\<newline>9ybGQ=''"
    by code_simp
  have r: "removeNonBase64 ''SGVs bG8=!'' = ''SGVsbG8=''"
    by code_simp
  show ?thesis
    using with_context_refines[of "\<lparr>polls = 0, cancel_at = None\<rparr>" "''SGVsbG8gV29ybGQ=''" 10]
      with_context_refines[of "\<lparr>polls = 0, cancel_at = None\<rparr>" "''SGVs bG8=!''" 10]
    by (simp add: w r)
qed

section \<open>The line wrapper on single-byte text\<close>

lemmas utf8_eval = DecodeRuneInString_def first_info_def byte_of_def RuneSelf_def RuneError_def
  Let_def range_from.simps range_string_def

lemmas char_eval = char_of_def bit_Suc_0_iff


lemma range_from_ascii:
  "byte_of c < 0x80 \<Longrightarrow> range_from off (c # cs) = (off, byte_of c) # range_from (off + 1) cs"
  using decode_ascii[of "c # cs"] by (subst range_from.simps) simp

lemma WriteRune_newline: "WriteRune b newline = b @ [CHR 0x0A]"
  by (simp add: WriteRune_ascii newline_def char_eval)

lemma WriteRune_byte: "byte_of c < 0x80 \<Longrightarrow> WriteRune b (byte_of c) = b @ [c]"
  by (simp add: WriteRune_ascii byte_of_def)

lemma wrapString_loop_ascii:
  "ascii s \<Longrightarrow> 0 < W \<Longrightarrow>
     wrapString_loop (int W) (range_from off s) acc = acc @ wrap_at off W s"
proof (induction s arbitrary: off acc)
  case Nil
  then show ?case by (simp add: range_from.simps)
next
  case (Cons c cs)
  have c: "byte_of c < 0x80" and cs: "ascii cs"
    using Cons.prems(1) by (auto simp: ascii_def)
  have m: "(int off mod int W = 0) = (off mod W = 0)"
    by (metis of_nat_mod of_nat_eq_0_iff)
  show ?case
    using Cons.IH[OF cs Cons.prems(2)]
    by (simp add: range_from_ascii[OF c] WriteRune_newline WriteRune_byte[OF c] m Let_def)
qed

lemma wrap_at_inside:
  "0 < j \<Longrightarrow> j + length xs \<le> W \<Longrightarrow> wrap_at (k * W + j) W xs = xs"
proof (induction xs arbitrary: j)
  case Nil
  then show ?case by simp
next
  case (Cons x xs)
  have "j < W" using Cons.prems by simp
  then have "(k * W + j) mod W \<noteq> 0" using Cons.prems(1) by simp
  moreover have "wrap_at (k * W + (j + 1)) W xs = xs"
    using Cons.prems by (intro Cons.IH) auto
  ultimately show ?case by (simp add: add.assoc)
qed

lemma wrap_at_segment:
  "xs \<noteq> [] \<Longrightarrow> length xs \<le> W \<Longrightarrow>
     wrap_at (k * W) W xs = (if k > 0 then [CHR 0x0A] else []) @ xs"
proof -
  assume ne: "xs \<noteq> []" and le: "length xs \<le> W"
  then obtain x xs' where xs: "xs = x # xs'" by (cases xs) auto
  have W: "0 < W" using ne le by (cases W) auto
  have "wrap_at (k * W + 1) W xs' = xs'"
    using le xs by (intro wrap_at_inside) auto
  then show ?thesis
    using W by (simp add: xs)
qed

lemma wrap_at_append:
  "wrap_at i W (xs @ ys) = wrap_at i W xs @ wrap_at (i + length xs) W ys"
  by (induction xs arbitrary: i) auto

lemma chunks_ne: "chunks W xs \<noteq> []"
  by (subst chunks.simps) simp

lemma join_lines_Cons: "ls \<noteq> [] \<Longrightarrow> join_lines (l # ls) = l @ [CHR 0x0A] @ join_lines ls"
  by (cases ls) (auto simp: join_lines_def)

lemma join_lines_single: "join_lines [l] = l"
  by (simp add: join_lines_def)

lemma wrap_at_chunks:
  "0 < W \<Longrightarrow>
     wrap_at (k * W) W s = (if k > 0 \<and> s \<noteq> [] then [CHR 0x0A] else []) @ join_lines (chunks W s)"
proof (induction W s arbitrary: k rule: chunks.induct)
  case (1 W xs)
  show ?case
  proof (cases "length xs \<le> W")
    case True
    then have ch: "chunks W xs = [xs]" by (subst chunks.simps) simp
    show ?thesis
    proof (cases "xs = []")
      case True
      then show ?thesis using ch by (simp add: join_lines_single)
    next
      case False
      then show ?thesis using wrap_at_segment[OF False True, of k] ch by (simp add: join_lines_single)
    qed
  next
    case False
    then have ch: "chunks W xs = take W xs # chunks W (drop W xs)"
      using "1.prems" by (subst chunks.simps) simp
    have ne: "take W xs \<noteq> []" "length (take W xs) \<le> W" "drop W xs \<noteq> []" "xs \<noteq> []"
      using False "1.prems" by auto
    have len: "length (take W xs) = W" using False by simp
    have "wrap_at (k * W) W xs = wrap_at (k * W) W (take W xs @ drop W xs)"
      by simp
    also have "\<dots> = wrap_at (k * W) W (take W xs) @ wrap_at (Suc k * W) W (drop W xs)"
      unfolding wrap_at_append len by (simp add: add.commute)
    also have "wrap_at (Suc k * W) W (drop W xs) = [CHR 0x0A] @ join_lines (chunks W (drop W xs))"
      using "1.IH"[of "Suc k"] False "1.prems" ne by simp
    also have "wrap_at (k * W) W (take W xs) = (if k > 0 then [CHR 0x0A] else []) @ take W xs"
      using wrap_at_segment[OF ne(1,2)] .
    finally show ?thesis
      using ne by (simp add: ch join_lines_Cons[OF chunks_ne])
  qed
qed

lemma wrapString_ascii:
  assumes "ascii s" "0 < W"
  shows "wrapString s W = join_lines (chunks (nat W) s)"
proof -
  have "wrapString s W = wrapString_loop (int (nat W)) (range_from 0 s) []"
    using assms(2) by (simp add: wrapString_def range_string_def)
  also have "\<dots> = wrap_at 0 (nat W) s"
    using wrapString_loop_ascii[OF assms(1), of "nat W" 0 "[]"] assms(2) by simp
  also have "\<dots> = join_lines (chunks (nat W) s)"
    using wrap_at_chunks[of "nat W" 0 s] assms(2) by simp
  finally show ?thesis .
qed

lemma concat_chunks: "concat (chunks W xs) = xs"
  by (induction W xs rule: chunks.induct) (subst chunks.simps, auto)

lemma chunks_butlast_length: "l \<in> set (butlast (chunks W xs)) \<Longrightarrow> length l = W"
proof (induction W xs rule: chunks.induct)
  case (1 W xs)
  show ?case
  proof (cases "W = 0 \<or> length xs \<le> W")
    case True
    then have "chunks W xs = [xs]" by (subst chunks.simps) simp
    then show ?thesis using "1.prems" by simp
  next
    case False
    then have ch: "chunks W xs = take W xs # chunks W (drop W xs)"
      by (subst chunks.simps) simp
    then have "l = take W xs \<or> l \<in> set (butlast (chunks W (drop W xs)))"
      using "1.prems" chunks_ne[of W "drop W xs"] by auto
    then show ?thesis using "1.IH"[OF False] False by auto
  qed
qed

lemma chunks_last_length: "0 < W \<Longrightarrow> length (last (chunks W xs)) \<le> W"
proof (induction W xs rule: chunks.induct)
  case (1 W xs)
  show ?case
  proof (cases "W = 0 \<or> length xs \<le> W")
    case True
    then have "chunks W xs = [xs]" by (subst chunks.simps) simp
    then show ?thesis using True "1.prems" by simp
  next
    case False
    then have ch: "chunks W xs = take W xs # chunks W (drop W xs)"
      by (subst chunks.simps) simp
    then show ?thesis using "1.IH"[OF False] "1.prems" chunks_ne[of W "drop W xs"] by simp
  qed
qed



text \<open>
  Claim C6, as amended. For every string \<open>s\<close> of single-byte (ASCII) characters, as
  every base64 text is, and every width \<open>W > 0\<close>, \<open>wrapString s W\<close> is \<open>s\<close> cut into
  segments of \<open>W\<close> characters joined by newlines: a newline after every \<open>W\<close> characters
  and none after the last segment, every line but the last of exactly \<open>W\<close>
  characters, and the segments together give \<open>s\<close> back. For every width \<open>W \<le> 0\<close> and
  every string \<open>s\<close>, \<open>wrapString s W = s\<close>.
\<close>

theorem wrapString_lines:
  "(ascii s \<and> 0 < W \<longrightarrow>
      wrapString s W = join_lines (chunks (nat W) s) \<and>
      concat (chunks (nat W) s) = s \<and>
      (\<forall>l\<in>set (butlast (chunks (nat W) s)). length l = nat W) \<and>
      length (last (chunks (nat W) s)) \<le> nat W) \<and>
   (W \<le> 0 \<longrightarrow> wrapString s W = s)"
proof -
  have "wrapString s W = s" if "W \<le> 0"
    using that by (simp add: wrapString_def)
  moreover have "length (last (chunks (nat W) s)) \<le> nat W" if "0 < W"
    using that by (intro chunks_last_length) simp
  ultimately show ?thesis
    using wrapString_ascii[of s W] concat_chunks[of "nat W" s] chunks_butlast_length[of _ "nat W" s]
    by blast
qed

theorem wrapString_lines_witness:
  "wrapString ''SGVsbG8gV29ybGQ='' 10 = ''SGVsbG8gV2\<newline>9ybGQ='' \<and>
   chunks 10 ''SGVsbG8gV29ybGQ='' = [''SGVsbG8gV2'', ''9ybGQ=''] \<and>
   wrapString ''SGVsbG8gV29ybGQ='' 0 = ''SGVsbG8gV29ybGQ=''"
proof -
  have a: "ascii ''SGVsbG8gV29ybGQ=''"
    by (simp add: ascii_def byte_of_def)
  have c: "chunks 10 ''SGVsbG8gV29ybGQ='' = [''SGVsbG8gV2'', ''9ybGQ='']"
    by (simp add: chunks.simps)
  show ?thesis
    using a wrapString_lines[of "''SGVsbG8gV29ybGQ=''" 10] wrapString_lines[of "''SGVsbG8gV29ybGQ=''" 0]
    by (simp add: c join_lines_def)
qed

text \<open>
  The claim as stated counts runes. The text below is three runes of three bytes
  each; with \<open>W = 3\<close> no newline is due, and the code inserts one before each rune
  that starts at a byte offset that is a multiple of 3.
\<close>

theorem wrapString_runes_counterexample:
  "runes [CHR 0xE6, CHR 0x97, CHR 0xA5, CHR 0xE6, CHR 0x9C, CHR 0xAC, CHR 0xE8, CHR 0xAA, CHR 0x9E]
     = [0x65E5, 0x672C, 0x8A9E] \<and>
   runes (wrapString
       [CHR 0xE6, CHR 0x97, CHR 0xA5, CHR 0xE6, CHR 0x9C, CHR 0xAC, CHR 0xE8, CHR 0xAA, CHR 0x9E] 3)
     = [0x65E5, newline, 0x672C, newline, 0x8A9E] \<and>
   runes (wrapString
       [CHR 0xE6, CHR 0x97, CHR 0xA5, CHR 0xE6, CHR 0x9C, CHR 0xAC, CHR 0xE8, CHR 0xAA, CHR 0x9E] 3)
     \<noteq> join_with newline (chunks 3
       (runes [CHR 0xE6, CHR 0x97, CHR 0xA5, CHR 0xE6, CHR 0x9C, CHR 0xAC, CHR 0xE8, CHR 0xAA, CHR 0x9E]))"
proof -
  have r1: "runes [CHR 0xE6, CHR 0x97, CHR 0xA5, CHR 0xE6, CHR 0x9C, CHR 0xAC, CHR 0xE8, CHR 0xAA, CHR 0x9E]
      = [0x65E5, 0x672C, 0x8A9E]"
    by (simp add: utf8_eval runes_def)
  have r2: "wrapString
       [CHR 0xE6, CHR 0x97, CHR 0xA5, CHR 0xE6, CHR 0x9C, CHR 0xAC, CHR 0xE8, CHR 0xAA, CHR 0x9E] 3
      = [CHR 0xE6, CHR 0x97, CHR 0xA5, CHR 0x0A, CHR 0xE6, CHR 0x9C, CHR 0xAC, CHR 0x0A,
         CHR 0xE8, CHR 0xAA, CHR 0x9E]"
    by (simp add: utf8_eval wrapString_def WriteRune_def AppendRune_def encode3_def newline_def
        char_eval)
  have r3: "runes [CHR 0xE6, CHR 0x97, CHR 0xA5, CHR 0x0A, CHR 0xE6, CHR 0x9C, CHR 0xAC, CHR 0x0A,
         CHR 0xE8, CHR 0xAA, CHR 0x9E]
      = [0x65E5, newline, 0x672C, newline, 0x8A9E]"
    by (simp add: utf8_eval runes_def newline_def)
  have r4: "join_with newline (chunks 3 [0x65E5, 0x672C, 0x8A9E::nat]) = [0x65E5, 0x672C, 0x8A9E]"
    by (simp add: chunks.simps)
  show ?thesis
    unfolding r2 r3 r1 r4 by (simp add: newline_def)
qed

section \<open>The encoder when the signal never fires\<close>

lemma encodeSource_read_never:
  "cancel_at c = None \<Longrightarrow>
     \<exists>c' reader'. encodeSource_read c reader allData =
        ((case rd_fail reader of None \<Rightarrow> Inr (allData @ rd_data reader)
          | Some msg \<Rightarrow> Inl (ReadError msg)), c', reader')
        \<and> cancel_at c' = None"
proof (induction "length (rd_data reader)" arbitrary: c reader allData rule: less_induct)
  case less
  let ?c = "c\<lparr>polls := polls c + 1\<rparr>"
  have n: "cancel_at ?c = None" using less.prems by simp
  show ?case
  proof (cases "rd_data reader = []")
    case True
    then show ?thesis
      using less.prems n
      by (subst encodeSource_read.simps)
         (simp add: Check_never Read_def split: option.splits)
  next
    case False
    let ?r = "reader\<lparr>rd_data := drop chunkSize (rd_data reader), rd_calls := rd_calls reader + 1\<rparr>"
    have "length (rd_data ?r) < length (rd_data reader)"
      using False by (simp add: chunkSize_def)
    from less.hyps[OF this n, of "allData @ take chunkSize (rd_data reader)"]
    obtain c' reader' where
      "encodeSource_read ?c ?r (allData @ take chunkSize (rd_data reader)) =
        ((case rd_fail reader of None \<Rightarrow> Inr (allData @ rd_data reader)
          | Some msg \<Rightarrow> Inl (ReadError msg)), c', reader')" "cancel_at c' = None"
      by (auto split: option.splits)
    moreover have "0 < chunkSize" by (simp add: chunkSize_def)
    ultimately show ?thesis
      using less.prems False
      by (subst encodeSource_read.simps) (simp add: Check_never Read_def)
  qed
qed

lemma encodeSource_never:
  assumes "cancel_at (w_ctx w) = None" "rd_fail (w_in w) = None"
  shows "fst (encodeSource flags w) = None \<and>
         w_out (snd (encodeSource flags w)) =
           w_out w @ wrapString (EncodeToString (rd_data (w_in w))) (WrapWidth flags) @ [CHR 0x0A] \<and>
         w_err (snd (encodeSource flags w)) = w_err w"
proof -
  let ?c = "(w_ctx w)\<lparr>polls := polls (w_ctx w) + 1\<rparr>"
  have n: "cancel_at ?c = None" using assms(1) by simp
  obtain c' reader' where r: "encodeSource_read ?c (w_in w) [] = (Inr (rd_data (w_in w)), c', reader')"
    and c': "cancel_at c' = None"
    using encodeSource_read_never[OF n, of "w_in w" "[]"] assms(2) by auto
  obtain c'' where wr: "wrapStringWithContext c' (EncodeToString (rd_data (w_in w))) (WrapWidth flags)
      = (Inr (wrapString (EncodeToString (rd_data (w_in w))) (WrapWidth flags)), c'')"
    using wrapStringWithContext_never[OF c'] by blast
  have nw: "\<not> WrapWidth flags > 0 \<Longrightarrow>
      wrapString (EncodeToString (rd_data (w_in w))) (WrapWidth flags) = EncodeToString (rd_data (w_in w))"
    by (simp add: wrapString_def)
  show ?thesis
    using assms(1) r wr nw
    by (simp add: encodeSource_def Check_never Let_def)
qed


section \<open>The decoder when the signal never fires\<close>

lemma decodeSource_scan_never:
  "cancel_at c = None \<Longrightarrow> sc_err sc = None \<Longrightarrow>
     \<exists>c' sc'. decodeSource_scan flags c sc encodedData =
        (Inr (encodedData @ source_text flags (rd_data (sc_reader sc))), c', sc')
        \<and> cancel_at c' = None \<and> sc_err sc' = Some (scan_end (sc_reader sc))"
proof (induction "length (rd_data (sc_reader sc))" arbitrary: c sc encodedData rule: less_induct)
  case less
  let ?c = "c\<lparr>polls := polls c + 1\<rparr>"
  let ?buf = "rd_data (sc_reader sc)"
  let ?line = "takeWhile (\<lambda>c. c \<noteq> CHR 0x0A) ?buf"
  have n: "cancel_at ?c = None" using less.prems by simp
  show ?case
  proof (cases "?buf = []")
    case True
    then show ?thesis
      using less.prems n
      by (subst decodeSource_scan.simps)
         (simp add: ScanWithContext_def Check_never Scan_def source_text_def scan_tokens.simps
            scan_end_def)
  next
    case False
    show ?thesis
    proof (cases "length ?line \<ge> MaxScanTokenSize")
      case True
      then show ?thesis
        using less.prems n False
        by (subst decodeSource_scan.simps)
           (simp add: ScanWithContext_def Check_never Scan_def source_text_def scan_tokens.simps
              scan_end_def Let_def)
    next
      case short: False
      define sc1 where "sc1 = sc\<lparr>sc_token := dropCR ?line,
                     sc_reader := (sc_reader sc)\<lparr>rd_data := drop (length ?line + 1) ?buf\<rparr>\<rparr>"
      define tok where "tok = dropCR ?line"
      have S: "ScanWithContext c sc = (True, ?c, sc1)"
        using less.prems False short
        by (simp add: ScanWithContext_def Check_never Scan_def Let_def sc1_def)
      have lt: "length (rd_data (sc_reader sc1)) < length ?buf"
        using False by (simp add: sc1_def)
      have e: "sc_err sc1 = None" using less.prems by (simp add: sc1_def)
      have tk: "sc_token sc1 = tok" by (simp add: sc1_def tok_def)
      have toks: "scan_tokens ?buf =
          (tok # fst (scan_tokens (rd_data (sc_reader sc1))),
           snd (scan_tokens (rd_data (sc_reader sc1))))"
        using False short
        by (subst scan_tokens.simps) (simp add: Let_def sc1_def tok_def split: prod.splits)
      have stx: "source_text flags ?buf
          = process_line flags tok @ source_text flags (rd_data (sc_reader sc1))"
        by (simp add: source_text_def toks)
      have se: "scan_end (sc_reader sc1) = scan_end (sc_reader sc)"
        by (simp add: scan_end_def toks) (simp add: sc1_def)
      show ?thesis
      proof (cases "IgnoreGarbage flags")
        case True
        obtain c1 where f: "removeNonBase64WithContext ?c (TrimSpace tok)
            = (Inr (removeNonBase64 (TrimSpace tok)), c1)" and c1: "cancel_at c1 = None"
          using removeNonBase64WithContext_never[OF n] by blast
        from less.hyps[OF lt c1 e, of "encodedData @ removeNonBase64 (TrimSpace tok)"]
        obtain c2 sc2 where
          R: "decodeSource_scan flags c1 sc1 (encodedData @ removeNonBase64 (TrimSpace tok)) =
              (Inr ((encodedData @ removeNonBase64 (TrimSpace tok))
                  @ source_text flags (rd_data (sc_reader sc1))), c2, sc2)"
          and c2: "cancel_at c2 = None" and e2: "sc_err sc2 = Some (scan_end (sc_reader sc1))"
          by blast
        have "decodeSource_scan flags c sc encodedData
            = decodeSource_scan flags c1 sc1 (encodedData @ removeNonBase64 (TrimSpace tok))"
          using True f by (subst decodeSource_scan.simps) (simp add: S tk)
        then show ?thesis
          using R c2 e2 True by (simp add: stx se process_line_def)
      next
        case False
        from less.hyps[OF lt n e, of "encodedData @ TrimSpace tok"]
        obtain c2 sc2 where
          R: "decodeSource_scan flags ?c sc1 (encodedData @ TrimSpace tok) =
              (Inr ((encodedData @ TrimSpace tok)
                  @ source_text flags (rd_data (sc_reader sc1))), c2, sc2)"
          and c2: "cancel_at c2 = None" and e2: "sc_err sc2 = Some (scan_end (sc_reader sc1))"
          by blast
        have "decodeSource_scan flags c sc encodedData
            = decodeSource_scan flags ?c sc1 (encodedData @ TrimSpace tok)"
          using False by (subst decodeSource_scan.simps) (simp add: S tk)
        then show ?thesis
          using R c2 e2 False by (simp add: stx se process_line_def)
      qed
    qed
  qed
qed

lemma Scanner_Err_end:
  "sc_err sc = Some (scan_end reader) \<Longrightarrow>
     Scanner_Err sc = (if scan_end reader = io_EOF then None else Some (scan_end reader))"
  by (simp add: Scanner_Err_def split: error.splits)

lemma decodeSource_never:
  assumes "cancel_at (w_ctx w) = None"
  shows "(fst (decodeSource flags w), w_out (snd (decodeSource flags w)),
          w_err (snd (decodeSource flags w))) =
     (if scan_end (w_in w) \<noteq> io_EOF
      then (Some (scan_end (w_in w)), w_out w, report (w_err w) (scan_end (w_in w)))
      else
        case DecodeString (source_text flags (rd_data (w_in w))) of
          (decoded, Some err) \<Rightarrow> (Some err, w_out w, report (w_err w) err)
        | (decoded, None) \<Rightarrow> (None, w_out w @ decoded, w_err w))"
proof -
  let ?c = "(w_ctx w)\<lparr>polls := polls (w_ctx w) + 1\<rparr>"
  have n: "cancel_at ?c = None" using assms by simp
  obtain c' sc' where s: "decodeSource_scan flags ?c (NewScanner (w_in w)) [] =
        (Inr (source_text flags (rd_data (w_in w))), c', sc')"
    and c': "cancel_at c' = None" and e: "sc_err sc' = Some (scan_end (w_in w))"
    using decodeSource_scan_never[OF n, of "NewScanner (w_in w)" flags "[]"]
    by (auto simp: NewScanner_def)
  show ?thesis
    using assms s
    by (simp add: decodeSource_def Check_never[OF assms] Check_never[OF c'] Scanner_Err_end[OF e]
          split: prod.splits option.splits)
qed

section \<open>Evaluating the codec\<close>

lemma removeNonBase64_filter: "removeNonBase64 s = filter (\<lambda>c. c \<in> base64_chars) s"
  unfolding removeNonBase64_def range_string_def
  using removeNonBase64_loop_filter[of 0 s "[]"] by simp

lemma base64_chars_encodeStd: "base64_chars = insert CHR ''='' (set encodeStd)"
proof -
  have "''ABCDEFGHIJKLMNOPQRSTUVWXYZabcdefghijklmnopqrstuvwxyz0123456789+/=''
      = encodeStd @ ''=''"
    by (simp add: encodeStd_def)
  then show ?thesis
    unfolding base64_chars_def by (simp only: set_append) simp
qed

lemma decodeMap_in: "c \<in> set encodeStd \<Longrightarrow> decodeMap c = decode_byte (byte_of c)"
proof -
  have "list_all (\<lambda>c. decodeMap c = decode_byte (byte_of c)) encodeStd"
    by (simp add: encodeStd_def decodeMap_def decode_byte_def byte_of_def)
  then show "c \<in> set encodeStd \<Longrightarrow> decodeMap c = decode_byte (byte_of c)"
    by (simp add: list_all_iff)
qed

lemma decodeMap_arith: "decodeMap c = decode_byte (byte_of c)"
proof (cases "c \<in> set encodeStd")
  case True
  then show ?thesis by (rule decodeMap_in)
next
  case False
  have "decode_byte (byte_of c) = 255"
  proof (cases "c = CHR ''=''")
    case True
    then show ?thesis by (simp add: decode_byte_def byte_of_def)
  next
    case ne: False
    then have "c \<notin> base64_chars" using False by (simp add: base64_chars_encodeStd)
    then have "\<not> keep_rune (byte_of c)" using keep_rune_iff by simp
    then show ?thesis by (auto simp: keep_rune_def decode_byte_def byte_of_def)
  qed
  then show ?thesis using False by (simp add: decodeMap_def)
qed


lemmas b64_eval = Decode_loop.simps decodeQuantum_def decodeMap_arith decode_byte_def byte_of_def
  is_newline_def padChar_def after_padding_def Let_def DecodeString_def


lemmas trim_eval = TrimSpace.simps TrimSpace_stop.simps asciiSpace_def byte_of_def RuneSelf_def Let_def

lemmas scan_eval = scan_tokens.simps MaxScanTokenSize_def dropCR_def scan_end_def source_text_def
  process_line_def

lemma Itoa_digit: "n < 10 \<Longrightarrow> Itoa n = [char_of (48 + n)]"
  by (simp add: Itoa.simps)

lemma DecodeString_empty: "DecodeString [] = ([], None)"
  by (simp add: DecodeString_def Decode_loop.simps)

lemma wrapString_empty: "wrapString [] width = []"
  by (simp add: wrapString_def range_string_def range_from.simps)

text \<open>
  Claim C9. Encoding an empty byte source succeeds and writes nothing but the
  newline that ends every encoding; decoding an empty text source succeeds and
  writes no byte. (The cancellation signal does not fire.)
\<close>

theorem empty_source:
  assumes "cancel_at (w_ctx w) = None" "rd_data (w_in w) = []" "rd_fail (w_in w) = None"
  shows "fst (encodeSource flags w) = None \<and>
         w_out (snd (encodeSource flags w)) = w_out w @ [CHR 0x0A] \<and>
         w_err (snd (encodeSource flags w)) = w_err w \<and>
         fst (decodeSource flags w) = None \<and>
         w_out (snd (decodeSource flags w)) = w_out w \<and>
         w_err (snd (decodeSource flags w)) = w_err w"
proof -
  have e: "scan_end (w_in w) = io_EOF" "source_text flags [] = []"
    using assms by (simp_all add: scan_eval)
  show ?thesis
    using encodeSource_never[OF assms(1,3), of flags] decodeSource_never[OF assms(1), of flags]
    by (simp add: e assms(2) EncodeToString_def wrapString_empty DecodeString_empty)
qed

theorem empty_source_witness:
  "encodeSource (Flags (Base64 []))
     \<lparr>w_ctx = \<lparr>polls = 0, cancel_at = None\<rparr>,
      w_in = \<lparr>rd_data = [], rd_fail = None, rd_calls = 0\<rparr>, w_out = [], w_err = []\<rparr>
   = (None, \<lparr>w_ctx = \<lparr>polls = 2, cancel_at = None\<rparr>,
             w_in = \<lparr>rd_data = [], rd_fail = None, rd_calls = 1\<rparr>,
             w_out = ''\<newline>'', w_err = []\<rparr>) \<and>
   fst (decodeSource (Flags (Base64 [DecodeFlag True]))
     \<lparr>w_ctx = \<lparr>polls = 0, cancel_at = None\<rparr>,
      w_in = \<lparr>rd_data = [], rd_fail = None, rd_calls = 0\<rparr>, w_out = [], w_err = []\<rparr>) = None \<and>
   w_out (snd (decodeSource (Flags (Base64 [DecodeFlag True]))
     \<lparr>w_ctx = \<lparr>polls = 0, cancel_at = None\<rparr>,
      w_in = \<lparr>rd_data = [], rd_fail = None, rd_calls = 0\<rparr>, w_out = [], w_err = []\<rparr>)) = []"
proof -
  have "encodeSource (Flags (Base64 []))
     \<lparr>w_ctx = \<lparr>polls = 0, cancel_at = None\<rparr>,
      w_in = \<lparr>rd_data = [], rd_fail = None, rd_calls = 0\<rparr>, w_out = [], w_err = []\<rparr>
   = (None, \<lparr>w_ctx = \<lparr>polls = 2, cancel_at = None\<rparr>,
             w_in = \<lparr>rd_data = [], rd_fail = None, rd_calls = 1\<rparr>,
             w_out = ''\<newline>'', w_err = []\<rparr>)"
    by (simp add: encodeSource_def Base64_def Args_def CheckContextCancellation_def cancelled_def
          encodeSource_read.simps Read_def EncodeToString_def wrapStringWithContext_def
          range_string_def range_from.simps)
  then show ?thesis
    using empty_source[of "\<lparr>w_ctx = \<lparr>polls = 0, cancel_at = None\<rparr>,
      w_in = \<lparr>rd_data = [], rd_fail = None, rd_calls = 0\<rparr>, w_out = [], w_err = []\<rparr>"
      "Flags (Base64 [DecodeFlag True])"]
    by simp
qed

section \<open>The constructor and the wrap width\<close>

lemma Base64_width_nonzero: "WrapWidth (Flags (Base64 parameters)) \<noteq> 0"
  by (simp add: Base64_def Let_def)

lemma Args_snoc_width: "WrapWidth (Flags (Args (parameters @ [WrapWidthOpt width]))) = width"
  by (simp add: Args_def)

text \<open>
  Claim C5, as amended. The constructor replaces a wrap width of 0, whether unset or
  given explicitly, by the default 76, so no configuration it produces has width 0
  and a requested width of 0 wraps at 76 columns. \<open>encodeSource\<close> leaves the encoded
  text unwrapped when the width of its configuration is 0 or less; a negative width
  is kept by the constructor, so a constructible configuration under which
  \<open>encodeSource\<close> emits the base64 text unwrapped exists.
\<close>

theorem wrap_width_default:
  "WrapWidth (Flags (Base64 parameters)) \<noteq> 0 \<and>
   WrapWidth (Flags (Base64 [])) = 76 \<and>
   WrapWidth (Flags (Base64 (parameters @ [WrapWidthOpt 0]))) = 76 \<and>
   (width < 0 \<longrightarrow> WrapWidth (Flags (Base64 (parameters @ [WrapWidthOpt width]))) = width) \<and>
   (cancel_at (w_ctx w) = None \<and> rd_fail (w_in w) = None \<and> WrapWidth flags \<le> 0 \<longrightarrow>
      fst (encodeSource flags w) = None \<and>
      w_out (snd (encodeSource flags w)) = w_out w @ EncodeToString (rd_data (w_in w)) @ [CHR 0x0A])"
proof -
  have "WrapWidth (Flags (Base64 [])) = 76"
    by (simp add: Base64_def Args_def)
  moreover have "WrapWidth (Flags (Base64 (parameters @ [WrapWidthOpt 0]))) = 76"
    using Args_snoc_width[of parameters 0] by (simp add: Base64_def Let_def)
  moreover have "WrapWidth (Flags (Base64 (parameters @ [WrapWidthOpt width]))) = width" if "width < 0"
    using Args_snoc_width[of parameters width] that by (simp add: Base64_def Let_def)
  moreover have "fst (encodeSource flags w) = None \<and>
      w_out (snd (encodeSource flags w)) = w_out w @ EncodeToString (rd_data (w_in w)) @ [CHR 0x0A]"
    if "cancel_at (w_ctx w) = None" "rd_fail (w_in w) = None" "WrapWidth flags \<le> 0"
    using encodeSource_never[OF that(1,2), of flags] that(3) by (simp add: wrapString_def)
  ultimately show ?thesis
    using Base64_width_nonzero by blast
qed

theorem wrap_width_default_witness:
  "WrapWidth (Flags (Base64 [WrapWidthOpt (- 1)])) = - 1 \<and>
   w_out (snd (encodeSource (Flags (Base64 [WrapWidthOpt (- 1)]))
     \<lparr>w_ctx = \<lparr>polls = 0, cancel_at = None\<rparr>,
      w_in = \<lparr>rd_data = ''aaaaaaaaaaaaaaaaaaaaaaaaaaaaaaaaaaaaaaaaaaaaaaaaaaaaaaaaaa'',
              rd_fail = None, rd_calls = 0\<rparr>,
      w_out = [], w_err = []\<rparr>))
   = ''YWFhYWFhYWFhYWFhYWFhYWFhYWFhYWFhYWFhYWFhYWFhYWFhYWFhYWFhYWFhYWFhYWFhYWFhYWFhYQ==\<newline>''"
proof -
  have e: "EncodeToString ''aaaaaaaaaaaaaaaaaaaaaaaaaaaaaaaaaaaaaaaaaaaaaaaaaaaaaaaaaa'' =
      ''YWFhYWFhYWFhYWFhYWFhYWFhYWFhYWFhYWFhYWFhYWFhYWFhYWFhYWFhYWFhYWFhYWFhYWFhYWFhYQ==''"
    by (simp add: EncodeToString_def enc_def encodeStd_def byte_of_def padChar_def)
  have f: "Flags (Base64 [WrapWidthOpt (- 1)])
      = \<lparr>Decode = False, IgnoreGarbage = False, Wrap = False, WrapWidth = - 1\<rparr>"
    by (simp add: Base64_def Args_def)
  show ?thesis
    using wrap_width_default[of "[]" "- 1"
        "\<lparr>w_ctx = \<lparr>polls = 0, cancel_at = None\<rparr>,
          w_in = \<lparr>rd_data = ''aaaaaaaaaaaaaaaaaaaaaaaaaaaaaaaaaaaaaaaaaaaaaaaaaaaaaaaaaa'',
                  rd_fail = None, rd_calls = 0\<rparr>,
          w_out = [], w_err = []\<rparr>"
        "Flags (Base64 [WrapWidthOpt (- 1)])"]
    by (simp add: e f)
qed

text \<open>
  The claim as stated fails for the width 0 given explicitly: the configuration has
  width 76, and 58 bytes, which encode to 80 characters, come out on two lines.
\<close>

theorem wrap_width_zero_counterexample:
  "WrapWidth (Flags (Base64 [WrapWidthOpt 0])) = 76 \<and>
   w_out (snd (encodeSource (Flags (Base64 [WrapWidthOpt 0]))
     \<lparr>w_ctx = \<lparr>polls = 0, cancel_at = None\<rparr>,
      w_in = \<lparr>rd_data = ''aaaaaaaaaaaaaaaaaaaaaaaaaaaaaaaaaaaaaaaaaaaaaaaaaaaaaaaaaa'',
              rd_fail = None, rd_calls = 0\<rparr>,
      w_out = [], w_err = []\<rparr>))
   = ''YWFhYWFhYWFhYWFhYWFhYWFhYWFhYWFhYWFhYWFhYWFhYWFhYWFhYWFhYWFhYWFhYWFhYWFhYWFh\<newline>YQ==\<newline>'' \<and>
   w_out (snd (encodeSource (Flags (Base64 [WrapWidthOpt 0]))
     \<lparr>w_ctx = \<lparr>polls = 0, cancel_at = None\<rparr>,
      w_in = \<lparr>rd_data = ''aaaaaaaaaaaaaaaaaaaaaaaaaaaaaaaaaaaaaaaaaaaaaaaaaaaaaaaaaa'',
              rd_fail = None, rd_calls = 0\<rparr>,
      w_out = [], w_err = []\<rparr>))
   \<noteq> EncodeToString ''aaaaaaaaaaaaaaaaaaaaaaaaaaaaaaaaaaaaaaaaaaaaaaaaaaaaaaaaaa'' @ ''\<newline>''"
proof -
  have e: "EncodeToString ''aaaaaaaaaaaaaaaaaaaaaaaaaaaaaaaaaaaaaaaaaaaaaaaaaaaaaaaaaa'' =
      ''YWFhYWFhYWFhYWFhYWFhYWFhYWFhYWFhYWFhYWFhYWFhYWFhYWFhYWFhYWFhYWFhYWFhYWFhYWFhYQ==''"
    by (simp add: EncodeToString_def enc_def encodeStd_def byte_of_def padChar_def)
  have f: "Flags (Base64 [WrapWidthOpt 0])
      = \<lparr>Decode = False, IgnoreGarbage = False, Wrap = False, WrapWidth = 76\<rparr>"
    by (simp add: Base64_def Args_def)
  have a: "ascii ''YWFhYWFhYWFhYWFhYWFhYWFhYWFhYWFhYWFhYWFhYWFhYWFhYWFhYWFhYWFhYWFhYWFhYWFhYWFhYQ==''"
    by (simp add: ascii_def byte_of_def)
  have w: "wrapString
      ''YWFhYWFhYWFhYWFhYWFhYWFhYWFhYWFhYWFhYWFhYWFhYWFhYWFhYWFhYWFhYWFhYWFhYWFhYWFhYQ=='' 76
    = ''YWFhYWFhYWFhYWFhYWFhYWFhYWFhYWFhYWFhYWFhYWFhYWFhYWFhYWFhYWFhYWFhYWFhYWFhYWFh\<newline>YQ==''"
    using wrapString_ascii[OF a, of 76] by (simp add: chunks.simps join_lines_def)
  show ?thesis
    using encodeSource_never[of
        "\<lparr>w_ctx = \<lparr>polls = 0, cancel_at = None\<rparr>,
          w_in = \<lparr>rd_data = ''aaaaaaaaaaaaaaaaaaaaaaaaaaaaaaaaaaaaaaaaaaaaaaaaaaaaaaaaaa'',
                  rd_fail = None, rd_calls = 0\<rparr>,
          w_out = [], w_err = []\<rparr>"
        "Flags (Base64 [WrapWidthOpt 0])"]
    by (simp add: e f w)
qed

section \<open>Garbage that leaves an incomplete text\<close>

text \<open>
  Claim C4, as amended. Decoding the single line \<open>invalid!!!\<close> with \<open>ignoreGarbage\<close> set
  filters the line to \<open>invalid\<close>, seven characters that end in an incomplete group,
  and the decoding fails: \<open>decodeSource\<close> writes the decode error to the error
  channel, returns it, and writes no byte to the output sink.
\<close>

theorem decode_invalid_ignoring_garbage:
  assumes "cancel_at (w_ctx w) = None"
    and "rd_data (w_in w) = ''invalid!!!'' \<or> rd_data (w_in w) = ''invalid!!!\<newline>''"
    and "rd_fail (w_in w) = None" and "IgnoreGarbage flags"
  shows "source_text flags (rd_data (w_in w)) = ''invalid'' \<and>
         fst (decodeSource flags w) = Some (CorruptInputError 4) \<and>
         w_out (snd (decodeSource flags w)) = w_out w \<and>
         w_err (snd (decodeSource flags w))
           = w_err w @ ''base64: illegal base64 data at input byte 4\<newline>''"
proof -
  have t: "TrimSpace ''invalid!!!'' = ''invalid!!!''"
    by (simp add: trim_eval)
  have r: "removeNonBase64 ''invalid!!!'' = ''invalid''"
    by (simp add: removeNonBase64_filter base64_chars_def)
  have p: "process_line flags ''invalid!!!'' = ''invalid''"
    using assms(4) by (simp add: process_line_def t r)
  have s: "source_text flags (rd_data (w_in w)) = ''invalid''" "scan_end (w_in w) = io_EOF"
    using assms(2,3) by (auto simp add: scan_tokens.simps MaxScanTokenSize_def dropCR_def scan_end_def source_text_def p)
  have d: "DecodeString ''invalid'' = ([CHR 0x8A, CHR 0x7B, CHR 0xDA], Some (CorruptInputError 4))"
    by (simp add: b64_eval char_eval)
  show ?thesis
    using decodeSource_never[OF assms(1), of flags]
    by (simp add: s d report_def Itoa_digit char_eval)
qed

theorem decode_invalid_ignoring_garbage_witness:
  "fst (decodeSource (Flags (Base64 [DecodeFlag True, IgnoreGarbageFlag True]))
     \<lparr>w_ctx = \<lparr>polls = 0, cancel_at = None\<rparr>,
      w_in = \<lparr>rd_data = ''invalid!!!\<newline>'', rd_fail = None, rd_calls = 0\<rparr>,
      w_out = [], w_err = []\<rparr>) = Some (CorruptInputError 4) \<and>
   w_err (snd (decodeSource (Flags (Base64 [DecodeFlag True, IgnoreGarbageFlag True]))
     \<lparr>w_ctx = \<lparr>polls = 0, cancel_at = None\<rparr>,
      w_in = \<lparr>rd_data = ''invalid!!!\<newline>'', rd_fail = None, rd_calls = 0\<rparr>,
      w_out = [], w_err = []\<rparr>)) = ''base64: illegal base64 data at input byte 4\<newline>''"
proof -
  have f: "IgnoreGarbage (Flags (Base64 [DecodeFlag True, IgnoreGarbageFlag True]))"
    by (simp add: Base64_def Args_def)
  show ?thesis
    using decode_invalid_ignoring_garbage[of
        "\<lparr>w_ctx = \<lparr>polls = 0, cancel_at = None\<rparr>,
          w_in = \<lparr>rd_data = ''invalid!!!\<newline>'', rd_fail = None, rd_calls = 0\<rparr>,
          w_out = [], w_err = []\<rparr>"
        "Flags (Base64 [DecodeFlag True, IgnoreGarbageFlag True])"] f
    by simp
qed

text \<open>The claim as stated has this decoding succeed; it returns an error.\<close>

theorem decode_invalid_counterexample:
  "removeNonBase64 (TrimSpace ''invalid!!!'') = ''invalid'' \<and>
   fst (decodeSource (Flags (Base64 [DecodeFlag True, IgnoreGarbageFlag True]))
     \<lparr>w_ctx = \<lparr>polls = 0, cancel_at = None\<rparr>,
      w_in = \<lparr>rd_data = ''invalid!!!'', rd_fail = None, rd_calls = 0\<rparr>,
      w_out = [], w_err = []\<rparr>) \<noteq> None"
proof -
  have t: "TrimSpace ''invalid!!!'' = ''invalid!!!''"
    by (simp add: trim_eval)
  have r: "removeNonBase64 ''invalid!!!'' = ''invalid''"
    by (simp add: removeNonBase64_filter base64_chars_def)
  have f: "IgnoreGarbage (Flags (Base64 [DecodeFlag True, IgnoreGarbageFlag True]))"
    by (simp add: Base64_def Args_def)
  have p: "process_line (Flags (Base64 [DecodeFlag True, IgnoreGarbageFlag True])) ''invalid!!!''
      = ''invalid''"
    using f by (simp add: process_line_def t r)
  have s: "source_text (Flags (Base64 [DecodeFlag True, IgnoreGarbageFlag True])) ''invalid!!!''
      = ''invalid''"
    by (simp add: scan_tokens.simps MaxScanTokenSize_def dropCR_def source_text_def p)
  have e: "scan_end \<lparr>rd_data = ''invalid!!!'', rd_fail = None, rd_calls = 0\<rparr> = io_EOF"
    by (simp add: scan_eval)
  have d: "DecodeString ''invalid'' = ([CHR 0x8A, CHR 0x7B, CHR 0xDA], Some (CorruptInputError 4))"
    by (simp add: b64_eval char_eval)
  show ?thesis
    using decodeSource_never[of
        "\<lparr>w_ctx = \<lparr>polls = 0, cancel_at = None\<rparr>,
          w_in = \<lparr>rd_data = ''invalid!!!'', rd_fail = None, rd_calls = 0\<rparr>,
          w_out = [], w_err = []\<rparr>"
        "Flags (Base64 [DecodeFlag True, IgnoreGarbageFlag True])"]
    by (simp add: s e d t r)
qed

section \<open>Cancellation\<close>







lemma observed_mono: "steps c c1 \<Longrightarrow> steps c1 c' \<Longrightarrow> observed c c1 \<Longrightarrow> observed c c'"
  by (auto simp: observed_def steps_def)

lemma observed_cancelled: "steps c c' \<Longrightarrow> observed c c' \<Longrightarrow> cancelled c'"
  by (auto simp: observed_def steps_def cancelled_def)










text \<open>The decoder reports corrupt input and no other error.\<close>

lemma after_padding_error:
  "after_padding dbuf rest si = q \<Longrightarrow>
     (\<forall>d dl rs k e. q = Quantum d dl rs k (Some e) \<longrightarrow> (\<exists>n. e = CorruptInputError n)) \<and>
     (\<forall>k e. q \<noteq> Return k e)"
  by (auto simp: after_padding_def split: prod.splits if_splits)

lemma decodeQuantum_loop_error:
  "decodeQuantum_loop dbuf s si = q \<Longrightarrow>
     (\<forall>d dl rs k e. q = Quantum d dl rs k (Some e) \<longrightarrow> (\<exists>n. e = CorruptInputError n)) \<and>
     (\<forall>k e. q = Return k (Some e) \<longrightarrow> (\<exists>n. e = CorruptInputError n))"
proof (induction dbuf s si arbitrary: q rule: decodeQuantum_loop.induct)
  case (1 dbuf si)
  then show ?case by (auto simp: Let_def split: if_splits)
next
  case (2 dbuf c rest si)
  show ?case
  proof (cases "length dbuf \<ge> 4")
    case True
    then show ?thesis using "2.prems" by (auto simp: Let_def)
  next
    case False
    show ?thesis
    proof (cases "decodeMap c \<noteq> 0xff")
      case True
      then show ?thesis
        using False "2.prems" "2.IH"(1)[OF refl _ refl True refl] by (simp add: Let_def)
    next
      case nm: False
      show ?thesis
      proof (cases "is_newline c")
        case True
        then show ?thesis
          using False nm "2.prems" "2.IH"(2)[OF refl _ refl _ True refl] by (simp add: Let_def)
      next
        case nn: False
        show ?thesis
          using False nm nn "2.prems" after_padding_error
          by (auto simp: Let_def split: if_splits prod.splits list.splits)
      qed
    qed
  qed
qed

lemma decodeQuantum_error:
  "decodeQuantum s si = (p, bytes, Some e) \<Longrightarrow> \<exists>n. e = CorruptInputError n"
  using decodeQuantum_loop_error[OF refl, of "[]" s si]
  by (auto simp: decodeQuantum_def Let_def split: quantum.splits)

lemma Decode_loop_error:
  "Decode_loop s si dst = (d, Some e) \<Longrightarrow> \<exists>n. e = CorruptInputError n"
proof (induction s si dst rule: Decode_loop.induct)
  case (1 src si dst)
  show ?case
  proof (cases "src = []")
    case True
    then show ?thesis using "1.prems" by (subst (asm) Decode_loop.simps) simp
  next
    case False
    obtain rest si' bytes err where q: "decodeQuantum src si = ((rest, si'), bytes, err)"
      by (cases "decodeQuantum src si") auto
    show ?thesis
    proof (cases err)
      case None
      then have "Decode_loop src si dst = Decode_loop rest si' (dst @ bytes)"
        using False q by (subst Decode_loop.simps) simp
      then show ?thesis
        using "1.IH"[OF False q[symmetric] refl refl] None "1.prems" by simp
    next
      case (Some e')
      then have "Decode_loop src si dst = (dst @ bytes, Some e')"
        using False q by (subst Decode_loop.simps) simp
      then show ?thesis
        using decodeQuantum_error[of src si "(rest, si')" bytes e'] q Some "1.prems" by simp
    qed
  qed
qed

lemma DecodeString_error: "DecodeString s = (d, Some e) \<Longrightarrow> \<exists>n. e = CorruptInputError n"
  unfolding DecodeString_def by (rule Decode_loop_error)




section \<open>Trimming removes no character of the alphabet\<close>

lemma IsSpace_not_kept: "IsSpace r \<Longrightarrow> \<not> keep_rune r"
  by (auto simp: IsSpace_def keep_rune_def byte_of_def split: if_splits)

lemma asciiSpace_not_alphabet: "asciiSpace c \<Longrightarrow> c \<notin> base64_chars"
  by (auto simp: asciiSpace_def base64_chars_def)

lemma filter_empty_suffix:
  "filter P (drop i s) = [] \<Longrightarrow> i \<le> j \<Longrightarrow> filter P (drop j s) = []"
  by (metis (no_types, lifting) filter_empty_conv in_mono set_drop_subset_set_drop)

lemma filter_take_drop:
  "filter P (drop i s) = [] \<Longrightarrow> filter P (take i s) = filter P s"
  by (metis append_Nil2 append_take_drop_id filter_append)

lemma filter_drop_take:
  "filter P (take i s) = [] \<Longrightarrow> filter P (drop i s) = filter P s"
  by (metis append_Nil append_take_drop_id filter_append)

text \<open>The runes skipped from the left are white space.\<close>

lemma indexFunc_loop_space:
  "indexFunc_loop (range_from off s) IsSpace False = k \<Longrightarrow>
     (k = - 1 \<and> filter (\<lambda>c. c \<in> base64_chars) s = []) \<or>
     (\<exists>j. k = int (off + j) \<and> j \<le> length s \<and> filter (\<lambda>c. c \<in> base64_chars) (take j s) = [])"
proof (induction off s arbitrary: k rule: range_from.induct)
  case (1 off s)
  show ?case
  proof (cases "s = []")
    case True
    then show ?thesis using "1.prems" by (simp add: range_from.simps)
  next
    case False
    then obtain r n where D: "DecodeRuneInString s = (r, n)" and n: "1 \<le> n" "n \<le> length s"
      and fl: "filter (\<lambda>c. c \<in> base64_chars) (take n s)
                 = (if keep_rune r then [char_of r] else [])"
      using decode_filter[of s] by auto
    have R: "range_from off s = (off, r) # range_from (off + n) (drop n s)"
      using False D by (subst range_from.simps) simp
    show ?thesis
    proof (cases "IsSpace r")
      case False
      then have "k = int off" using "1.prems" R by simp
      then show ?thesis by (intro disjI2 exI[of _ 0]) simp
    next
      case True
      then have f0: "filter (\<lambda>c. c \<in> base64_chars) (take n s) = []"
        using fl IsSpace_not_kept by simp
      have "indexFunc_loop (range_from (off + n) (drop n s)) IsSpace False = k"
        using "1.prems" R True by simp
      from "1.IH"[OF \<open>s \<noteq> []\<close> D[symmetric] refl this]
      show ?thesis
      proof (elim disjE exE conjE)
        assume "k = - 1" "filter (\<lambda>c. c \<in> base64_chars) (drop n s) = []"
        then show ?thesis using filter_drop_take[OF f0] by simp
      next
        fix j assume j: "k = int (off + n + j)" "j \<le> length (drop n s)"
          "filter (\<lambda>c. c \<in> base64_chars) (take j (drop n s)) = []"
        have "take (n + j) s = take n s @ take j (drop n s)"
          by (simp add: take_add)
        then have "filter (\<lambda>c. c \<in> base64_chars) (take (n + j) s) = []"
          using f0 j(3) by simp
        then show ?thesis
          using j n by (intro disjI2 exI[of _ "n + j"]) (auto simp: add.assoc)
      qed
    qed
  qed
qed

lemma TrimLeftFunc_filter:
  "filter (\<lambda>c. c \<in> base64_chars) (TrimLeftFunc s IsSpace) = filter (\<lambda>c. c \<in> base64_chars) s"
  using indexFunc_loop_space[OF refl, of 0 s] filter_drop_take[of "\<lambda>c. c \<in> base64_chars" _ s]
  by (auto simp: TrimLeftFunc_def indexFunc_def range_string_def Let_def)


text \<open>The bytes that follow the first byte of a rune are not of the alphabet.\<close>

lemma decode_tail:
  assumes "t \<noteq> []" "DecodeRuneInString t = (r, n)"
  shows "filter (\<lambda>c. c \<in> base64_chars) (drop 1 (take n t)) = []"
proof (cases "byte_of (hd t) < 0x80")
  case True
  then show ?thesis using decode_ascii[OF assms(1) True] assms(2) by simp
next
  case False
  then have "\<forall>c\<in>set (take n t). 0x80 \<le> byte_of c"
    using decode_nonascii[OF assms(1)] assms(2) by auto
  then have "\<forall>c\<in>set (drop 1 (take n t)). c \<notin> base64_chars"
    using base64_chars_ascii by (fastforce dest: in_set_dropD)
  then show ?thesis by (simp add: filter_empty_conv)
qed

lemma find_start_le: "find_start t a lim \<le> a"
  by (induction t a lim rule: find_start.induct) (subst find_start.simps, auto)

lemma DecodeLastRune_facts:
  assumes "s \<noteq> []" "DecodeLastRuneInString s = (r, wid)"
  shows "1 \<le> wid \<and> wid \<le> length s \<and>
         filter (\<lambda>c. c \<in> base64_chars) (drop (length s - wid + 1) s) = [] \<and>
         (IsSpace r \<longrightarrow> filter (\<lambda>c. c \<in> base64_chars) (drop (length s - wid) s) = [])"
proof -
  define st0 where
    "st0 = find_start s (int (length s) - 1 - 1) (if int (length s) - 4 < 0 then 0 else int (length s) - 4)"
  define st where "st = (if st0 < 0 then 0 else st0)"
  define dr where "dr = DecodeRuneInString (drop (nat st) s)"
  have D: "DecodeLastRuneInString s =
      (if byte_of (s ! nat (int (length s) - 1)) < RuneSelf
       then (byte_of (s ! nat (int (length s) - 1)), 1)
       else if st + int (snd dr) \<noteq> int (length s) then (RuneError, 1) else dr)"
    using assms(1) unfolding DecodeLastRuneInString_def Let_def dr_def st_def st0_def
    by (simp split: prod.splits)
  have last: "s ! nat (int (length s) - 1) = last s"
    using assms(1) by (simp add: last_conv_nth nat_diff_distrib')
  have dl: "drop (length s - 1) s = [last s]"
    using assms(1) by (metis append_butlast_last_id append_eq_conv_conj length_butlast)
  have len: "1 \<le> length s" using assms(1) by (cases s) auto
  consider (ascii) "byte_of (last s) < RuneSelf" "r = byte_of (last s)" "wid = 1"
    | (err) "r = RuneError" "wid = 1"
    | (rune) "dr = (r, wid)" "st + int wid = int (length s)"
    using D assms(2) last by (auto split: if_splits)
  then show ?thesis
  proof cases
    case ascii
    have "IsSpace r \<Longrightarrow> last s \<notin> base64_chars"
      using IsSpace_not_kept[of r] keep_rune_iff[of "last s"] ascii by simp
    then show ?thesis using ascii len dl by simp
  next
    case err
    have "\<not> IsSpace RuneError" by (simp add: IsSpace_def RuneError_def)
    then show ?thesis using err len by simp
  next
    case rune
    have "st0 \<le> int (length s) - 1 - 1" unfolding st0_def by (rule find_start_le)
    then have st: "0 \<le> st" "st < int (length s)" using len by (auto simp: st_def)
    define t where "t = drop (nat st) s"
    have t: "t \<noteq> []" using st by (simp add: t_def)
    have dt: "DecodeRuneInString t = (r, wid)" using rune(1) by (simp add: dr_def t_def)
    have sz: "wid = length t" "nat st = length s - wid" "wid \<le> length s"
      using rune(2) st by (auto simp: t_def)
    have pos: "1 \<le> wid" using t sz by (cases t) auto
    have tt: "take wid t = t" using sz by simp
    have f1: "filter (\<lambda>c. c \<in> base64_chars) (drop 1 t) = []"
      using decode_tail[OF t dt] tt by simp
    have A: "drop (length s - wid + 1) s = drop 1 t"
      using sz(2) by (simp add: t_def add.commute)
    have B: "drop (length s - wid) s = t"
      using sz(2) by (simp add: t_def)
    have C: "IsSpace r \<Longrightarrow> filter (\<lambda>c. c \<in> base64_chars) t = []"
      using decode_filter[OF t] dt tt IsSpace_not_kept[of r] by auto
    show ?thesis
      unfolding A B using pos sz(3) f1 C by blast
  qed
qed


text \<open>The runes skipped from the right are white space.\<close>

lemma drop_split: "j \<le> i \<Longrightarrow> drop j s = drop j (take i s) @ drop i s"
proof -
  assume ji: "j \<le> i"
  have "drop j s = drop j (take i s @ drop i s)" by simp
  also have "\<dots> = drop j (take i s) @ drop (j - length (take i s)) (drop i s)"
    by (rule drop_append)
  also have "drop (j - length (take i s)) (drop i s) = drop i s"
  proof (cases "i \<le> length s")
    case True
    then show ?thesis using ji by simp
  next
    case False
    then show ?thesis by simp
  qed
  finally show ?thesis .
qed

lemma lastIndexFunc_space:
  "lastIndexFunc s IsSpace False = k \<Longrightarrow>
     - 1 \<le> k \<and> k < int (length s) \<and>
     filter (\<lambda>c. c \<in> base64_chars) (drop (nat (k + 1)) s) = []"
proof (induction "length s" arbitrary: s k rule: less_induct)
  case less
  show ?case
  proof (cases "s = []")
    case True
    then show ?thesis using less.prems by (simp add: lastIndexFunc.simps)
  next
    case False
    obtain r wid where D: "DecodeLastRuneInString s = (r, wid)"
      by (cases "DecodeLastRuneInString s") auto
    note F = DecodeLastRune_facts[OF False D]
    let ?i = "length s - wid"
    have L: "lastIndexFunc s IsSpace False =
        (if \<not> IsSpace r then int ?i else lastIndexFunc (take ?i s) IsSpace False)"
      using False D by (subst lastIndexFunc.simps) simp
    show ?thesis
    proof (cases "IsSpace r")
      case False
      then have "k = int ?i" using L less.prems by simp
      moreover have "nat (int ?i + 1) = ?i + 1" by simp
      ultimately show ?thesis using F by (simp del: of_nat_diff) linarith
    next
      case True
      then have k: "lastIndexFunc (take ?i s) IsSpace False = k" using L less.prems by simp
      have lt: "length (take ?i s) < length s" using F \<open>s \<noteq> []\<close> by simp
      from less.hyps[OF lt k]
      have IH: "- 1 \<le> k" "k < int ?i"
        "filter (\<lambda>c. c \<in> base64_chars) (drop (nat (k + 1)) (take ?i s)) = []"
        using F by simp_all
      have "nat (k + 1) \<le> ?i" using IH(1,2) by linarith
      then have "drop (nat (k + 1)) s = drop (nat (k + 1)) (take ?i s) @ drop ?i s"
        by (rule drop_split)
      then have "filter (\<lambda>c. c \<in> base64_chars) (drop (nat (k + 1)) s) = []"
        using IH(3) F True by simp
      then show ?thesis using IH(1,2) by simp
    qed
  qed
qed

lemma TrimRightFunc_filter:
  "filter (\<lambda>c. c \<in> base64_chars) (TrimRightFunc s IsSpace) = filter (\<lambda>c. c \<in> base64_chars) s"
proof -
  define k where "k = lastIndexFunc s IsSpace False"
  define i where "i = (if k \<ge> 0 \<and> byte_of (s ! nat k) \<ge> RuneSelf
               then k + int (snd (DecodeRuneInString (drop (nat k) s))) else k + 1)"
  note K = lastIndexFunc_space[OF k_def[symmetric]]
  have "k \<ge> 0 \<Longrightarrow> 1 \<le> snd (DecodeRuneInString (drop (nat k) s))"
  proof -
    assume "k \<ge> 0"
    then have "nat k < length s" using K by linarith
    then have "drop (nat k) s \<noteq> []" by simp
    from decode_filter[OF this] show ?thesis by auto
  qed
  then have "nat (k + 1) \<le> nat i" using K by (auto simp: i_def)
  then have "filter (\<lambda>c. c \<in> base64_chars) (drop (nat i) s) = []"
    using K filter_empty_suffix by blast
  then have "filter (\<lambda>c. c \<in> base64_chars) (take (nat i) s) = filter (\<lambda>c. c \<in> base64_chars) s"
    by (rule filter_take_drop)
  moreover have "TrimRightFunc s IsSpace = take (nat i) s"
    by (simp add: TrimRightFunc_def Let_def i_def k_def)
  ultimately show ?thesis by simp
qed

lemma TrimFunc_filter:
  "filter (\<lambda>c. c \<in> base64_chars) (TrimFunc s IsSpace) = filter (\<lambda>c. c \<in> base64_chars) s"
  by (simp add: TrimFunc_def TrimRightFunc_filter TrimLeftFunc_filter)

lemma TrimSpace_stop_filter:
  "filter (\<lambda>c. c \<in> base64_chars) (TrimSpace_stop s) = filter (\<lambda>c. c \<in> base64_chars) s"
proof (induction s rule: TrimSpace_stop.induct)
  case (1 s)
  show ?case
  proof (cases "s = []")
    case True
    then show ?thesis by (simp add: TrimSpace_stop.simps)
  next
    case False
    then have s: "s = butlast s @ [last s]" by simp
    show ?thesis
    proof (cases "byte_of (last s) \<ge> RuneSelf")
      case True
      then show ?thesis
        using False by (subst TrimSpace_stop.simps) (simp add: TrimRightFunc_filter Let_def)
    next
      case nr: False
      show ?thesis
      proof (cases "asciiSpace (last s)")
        case False
        then show ?thesis using nr \<open>s \<noteq> []\<close> by (subst TrimSpace_stop.simps) (simp add: Let_def)
      next
        case True
        have "filter (\<lambda>c. c \<in> base64_chars) s = filter (\<lambda>c. c \<in> base64_chars) (butlast s)"
          using asciiSpace_not_alphabet[OF True] by (subst s) (simp del: append_butlast_last_id)
        moreover have "TrimSpace_stop s = TrimSpace_stop (butlast s)"
          using True nr \<open>s \<noteq> []\<close> by (subst TrimSpace_stop.simps) (simp add: Let_def)
        ultimately show ?thesis
          using "1.IH"[OF \<open>s \<noteq> []\<close> refl nr] True by simp
      qed
    qed
  qed
qed

lemma TrimSpace_filter:
  "filter (\<lambda>c. c \<in> base64_chars) (TrimSpace s) = filter (\<lambda>c. c \<in> base64_chars) s"
proof (induction s)
  case Nil
  then show ?case by (simp add: TrimSpace.simps TrimSpace_stop_filter)
next
  case (Cons c cs)
  then show ?case
    using asciiSpace_not_alphabet[of c]
    by (simp add: TrimSpace.simps TrimSpace_stop_filter TrimFunc_filter)
qed

lemma process_line_eq:
  "process_line flags text =
     (if IgnoreGarbage flags then filter (\<lambda>c. c \<in> base64_chars) text else TrimSpace text)"
  by (simp add: process_line_def removeNonBase64_filter TrimSpace_filter)




section \<open>Decoding what the encoder wrote\<close>

lemma mask_63: "(63::nat) = mask 6"
  by (simp add: mask_eq_exp_minus_1)

lemma bit_small: "(x::nat) < 2 ^ k \<Longrightarrow> k \<le> n \<Longrightarrow> \<not> bit x n"
proof -
  assume a: "x < 2 ^ k" "k \<le> n"
  have "(2::nat) ^ k \<le> 2 ^ n" using a(2) by simp
  then have "x < 2 ^ n" using a(1) by linarith
  then have "x div 2 ^ n = 0" by simp
  then show ?thesis by (simp add: bit_iff_odd)
qed

lemma bit_byte: "bit (byte_of c) n \<Longrightarrow> n < 8"
  using bit_small[of "byte_of c" 8 n] by (cases "n < 8") (auto simp: byte_of_def)

text \<open>The four 6-bit values of a 24-bit value put it together again.\<close>

lemma sextets:
  assumes "(val::nat) < 2 ^ 24"
  shows "push_bit 18 (drop_bit 18 val AND 63) OR push_bit 12 (drop_bit 12 val AND 63)
           OR push_bit 6 (drop_bit 6 val AND 63) OR (val AND 63) = val"
proof (rule bit_eqI)
  fix n
  have hi: "24 \<le> n \<Longrightarrow> \<not> bit val n" using bit_small[OF assms] by simp
  consider "n < 6" | "6 \<le> n \<and> n < 12" | "12 \<le> n \<and> n < 18" | "18 \<le> n \<and> n < 24" | "24 \<le> n"
    by linarith
  then show "bit (push_bit 18 (drop_bit 18 val AND 63) OR push_bit 12 (drop_bit 12 val AND 63)
           OR push_bit 6 (drop_bit 6 val AND 63) OR (val AND 63)) n = bit val n"
    unfolding mask_63 by cases (use hi in \<open>auto simp: bit_simps\<close>)
qed

lemma bytes3:
  fixes a b c :: char
  defines "val \<equiv> push_bit 16 (byte_of a) OR push_bit 8 (byte_of b) OR byte_of c"
  shows "val < 2 ^ 24" "char_of (drop_bit 16 val) = a" "char_of (drop_bit 8 val) = b"
    "char_of val = c"
proof -
  note s = bit_byte
  have "take_bit 8 (drop_bit 16 val) = byte_of a"
    unfolding val_def by (rule bit_eqI) (auto simp: bit_simps dest: s)
  then show "char_of (drop_bit 16 val) = a"
    by (simp add: char_of_eq_iff byte_of_def)
  have "take_bit 8 (drop_bit 8 val) = byte_of b"
    unfolding val_def by (rule bit_eqI) (auto simp: bit_simps dest: s)
  then show "char_of (drop_bit 8 val) = b"
    by (simp add: char_of_eq_iff byte_of_def)
  have "take_bit 8 val = byte_of c"
    unfolding val_def by (rule bit_eqI) (auto simp: bit_simps dest: s)
  then show "char_of val = c"
    by (simp add: char_of_eq_iff byte_of_def)
  have "take_bit 24 val = val"
    unfolding val_def by (rule bit_eqI) (auto simp: bit_simps dest: s)
  then show "val < 2 ^ 24"
    by (metis take_bit_nat_less_exp)
qed

lemma low_zero2:
  "(push_bit 16 (x::nat) OR push_bit 8 y) AND 63 = 0"
  unfolding mask_63 by (rule bit_eqI) (auto simp: bit_simps)

lemma low_zero1:
  "push_bit 16 (x::nat) AND 63 = 0" "drop_bit 6 (push_bit 16 (x::nat)) AND 63 = 0"
  unfolding mask_63 by (rule bit_eqI, auto simp: bit_simps)+

lemma and_63_less: "(x::nat) AND 63 < 64"
  by (simp add: and_3f)

text \<open>The characters of the alphabet, by index.\<close>

lemma length_takeWhile_nth:
  assumes "distinct xs" "k < length xs"
  shows "length (takeWhile (\<lambda>x. x \<noteq> xs ! k) xs) = k"
proof (rule antisym)
  show "k \<le> length (takeWhile (\<lambda>x. x \<noteq> xs ! k) xs)"
    using assms by (intro length_takeWhile_less_P_nth) (auto simp: nth_eq_iff_index_eq)
  show "length (takeWhile (\<lambda>x. x \<noteq> xs ! k) xs) \<le> k"
  proof (rule ccontr)
    assume "\<not> length (takeWhile (\<lambda>x. x \<noteq> xs ! k) xs) \<le> k"
    then have k: "k < length (takeWhile (\<lambda>x. x \<noteq> xs ! k) xs)" by simp
    then have "takeWhile (\<lambda>x. x \<noteq> xs ! k) xs ! k = xs ! k" by (rule takeWhile_nth)
    then have "xs ! k \<in> set (takeWhile (\<lambda>x. x \<noteq> xs ! k) xs)" using k by (metis nth_mem)
    then show False by (auto dest: set_takeWhileD)
  qed
qed

lemma encodeStd_facts:
  "distinct encodeStd" "length encodeStd = 64"
  "\<forall>c\<in>set encodeStd. \<not> is_newline c \<and> c \<noteq> padChar"
  by (simp_all add: encodeStd_def is_newline_def padChar_def)

lemma enc_facts:
  assumes "k < 64"
  shows "decodeMap (enc k) = k" "enc k \<in> set encodeStd" "\<not> is_newline (enc k)" "enc k \<noteq> padChar"
proof -
  show m: "enc k \<in> set encodeStd"
    using assms encodeStd_facts(2) by (simp add: enc_def)
  then show "\<not> is_newline (enc k)" "enc k \<noteq> padChar"
    using encodeStd_facts(3) by auto
  show "decodeMap (enc k) = k"
    using m length_takeWhile_nth[OF encodeStd_facts(1), of k] assms encodeStd_facts(2)
    by (simp add: decodeMap_def enc_def)
qed


lemma pad_facts: "decodeMap padChar = 0xff" "\<not> is_newline padChar"
  by (simp_all add: decodeMap_arith decode_byte_def byte_of_def padChar_def is_newline_def)

lemma decodeQuantum_loop_full:
  "length dbuf \<ge> 4 \<Longrightarrow> decodeQuantum_loop dbuf s si = Quantum dbuf 4 s si None"
  by (cases s) (simp_all add: Let_def)

lemma decodeQuantum_loop_symbol:
  "length dbuf < 4 \<Longrightarrow> k < 64 \<Longrightarrow>
     decodeQuantum_loop dbuf (enc k # s) si = decodeQuantum_loop (dbuf @ [k]) s (si + 1)"
  by (simp add: Let_def enc_facts)

lemma decodeQuantum_group4:
  assumes "k0 < 64" "k1 < 64" "k2 < 64" "k3 < 64"
  shows "decodeQuantum (enc k0 # enc k1 # enc k2 # enc k3 # tail) si =
     ((tail, si + 4),
      [char_of (drop_bit 16 (push_bit 18 k0 OR push_bit 12 k1 OR push_bit 6 k2 OR k3)),
       char_of (drop_bit 8 (push_bit 18 k0 OR push_bit 12 k1 OR push_bit 6 k2 OR k3)),
       char_of (push_bit 18 k0 OR push_bit 12 k1 OR push_bit 6 k2 OR k3)], None)"
proof -
  have "decodeQuantum_loop [] (enc k0 # enc k1 # enc k2 # enc k3 # tail) si
      = Quantum [k0, k1, k2, k3] 4 tail (si + 4) None"
    using assms
    by (simp add: decodeQuantum_loop_symbol decodeQuantum_loop_full add.assoc
          del: decodeQuantum_loop.simps)
  then show ?thesis
    by (simp add: decodeQuantum_def Let_def)
qed

lemma decodeQuantum_group3:
  assumes "k0 < 64" "k1 < 64" "k2 < 64"
  shows "decodeQuantum [enc k0, enc k1, enc k2, padChar] si =
     (([], si + 4),
      [char_of (drop_bit 16 (push_bit 18 k0 OR push_bit 12 k1 OR push_bit 6 k2 OR 0)),
       char_of (drop_bit 8 (push_bit 18 k0 OR push_bit 12 k1 OR push_bit 6 k2 OR 0))], None)"
proof -
  have "decodeQuantum_loop [k0, k1, k2] [padChar] m = Quantum [k0, k1, k2] 3 [] (m + 1) None" for m
    by (simp add: Let_def pad_facts after_padding_def)
  then have "decodeQuantum_loop [] [enc k0, enc k1, enc k2, padChar] si
      = Quantum [k0, k1, k2] 3 [] (si + 4) None"
    using assms
    by (simp add: decodeQuantum_loop_symbol add.assoc del: decodeQuantum_loop.simps)
  then show ?thesis
    by (simp add: decodeQuantum_def Let_def)
qed

lemma decodeQuantum_group2:
  assumes "k0 < 64" "k1 < 64"
  shows "decodeQuantum [enc k0, enc k1, padChar, padChar] si =
     (([], si + 4), [char_of (drop_bit 16 (push_bit 18 k0 OR push_bit 12 k1 OR push_bit 6 0 OR 0))],
      None)"
proof -
  have "decodeQuantum_loop [k0, k1] [padChar, padChar] m = Quantum [k0, k1] 2 [] (m + 2) None" for m
    by (simp add: Let_def pad_facts after_padding_def)
  then have "decodeQuantum_loop [] [enc k0, enc k1, padChar, padChar] si
      = Quantum [k0, k1] 2 [] (si + 4) None"
    using assms
    by (simp add: decodeQuantum_loop_symbol add.assoc del: decodeQuantum_loop.simps)
  then show ?thesis
    by (simp add: decodeQuantum_def Let_def)
qed

lemma Decode_Encode:
  "Decode_loop (Encode src) si dst = (dst @ src, None)"
proof (induction src arbitrary: si dst rule: Encode.induct)
  case (1 a b c rest)
  define val where "val = push_bit 16 (byte_of a) OR push_bit 8 (byte_of b) OR byte_of c"
  note B = bytes3[of a b c, folded val_def]
  have E: "Encode (a # b # c # rest) =
      enc (drop_bit 18 val AND 63) # enc (drop_bit 12 val AND 63) #
      enc (drop_bit 6 val AND 63) # enc (val AND 63) # Encode rest"
    by (simp add: val_def Let_def)
  have Q: "decodeQuantum (Encode (a # b # c # rest)) si = ((Encode rest, si + 4), [a, b, c], None)"
    unfolding E
    by (simp only: decodeQuantum_group4[OF and_63_less and_63_less and_63_less and_63_less]
          sextets[OF B(1)] B)
  have ne: "Encode (a # b # c # rest) \<noteq> []" unfolding E by simp
  show ?case
    by (subst Decode_loop.simps) (simp add: Q ne "1.IH" del: Encode.simps)
next
  case (2 a b)
  define val where "val = push_bit 16 (byte_of a) OR push_bit 8 (byte_of b) OR byte_of (CHR 0x00)"
  note B = bytes3[of a b "CHR 0x00", folded val_def]
  have v: "val = push_bit 16 (byte_of a) OR push_bit 8 (byte_of b)"
    by (simp add: val_def byte_of_def)
  have z: "val AND 63 = 0" unfolding v by (rule low_zero2)
  have E: "Encode [a, b] =
      [enc (drop_bit 18 val AND 63), enc (drop_bit 12 val AND 63), enc (drop_bit 6 val AND 63),
       padChar]"
    by (simp add: v Let_def)
  have "push_bit 18 (drop_bit 18 val AND 63) OR push_bit 12 (drop_bit 12 val AND 63)
           OR push_bit 6 (drop_bit 6 val AND 63) OR 0 = val"
    using sextets[OF B(1)] by (simp only: z)
  then have Q: "decodeQuantum (Encode [a, b]) si = (([], si + 4), [a, b], None)"
    unfolding E
    by (simp only: decodeQuantum_group3[OF and_63_less and_63_less and_63_less] B)
  have ne: "Encode [a, b] \<noteq> []" unfolding E by simp
  show ?case
    by (subst Decode_loop.simps) (simp add: Q ne Decode_loop.simps[of "[]"] del: Encode.simps)
next
  case (3 a)
  define val where "val = push_bit 16 (byte_of a) OR push_bit 8 (byte_of (CHR 0x00)) OR byte_of (CHR 0x00)"
  note B = bytes3[of a "CHR 0x00" "CHR 0x00", folded val_def]
  have v: "val = push_bit 16 (byte_of a)"
    by (simp add: val_def byte_of_def)
  have z: "val AND 63 = 0" "drop_bit 6 val AND 63 = 0" unfolding v by (rule low_zero1)+
  have E: "Encode [a] = [enc (drop_bit 18 val AND 63), enc (drop_bit 12 val AND 63), padChar, padChar]"
    by (simp add: v Let_def)
  have "push_bit 18 (drop_bit 18 val AND 63) OR push_bit 12 (drop_bit 12 val AND 63)
           OR push_bit 6 0 OR 0 = val"
    using sextets[OF B(1)] by (simp only: z)
  then have Q: "decodeQuantum (Encode [a]) si = (([], si + 4), [a], None)"
    unfolding E
    by (simp only: decodeQuantum_group2[OF and_63_less and_63_less] B)
  have ne: "Encode [a] \<noteq> []" unfolding E by simp
  show ?case
    by (subst Decode_loop.simps) (simp add: Q ne Decode_loop.simps[of "[]"] del: Encode.simps)
next
  case 4
  show ?case by (simp add: Decode_loop.simps)
qed

lemma DecodeString_EncodeToString: "DecodeString (EncodeToString src) = (src, None)"
  using Decode_Encode[of src 0 "[]"] by (simp add: DecodeString_def EncodeToString_def)


section \<open>The text the encoder writes\<close>

lemma enc_alphabet: "enc (x AND 63) \<in> base64_chars"
  using enc_facts(2)[OF and_63_less, of x] by (simp add: base64_chars_encodeStd)

lemma padChar_alphabet: "padChar \<in> base64_chars"
  by (simp add: base64_chars_encodeStd padChar_def)

lemma Encode_alphabet: "set (Encode src) \<subseteq> base64_chars"
  by (induction src rule: Encode.induct) (simp_all add: Let_def enc_alphabet padChar_alphabet)

lemma length_Encode: "length (Encode src) = 4 * ((length src + 2) div 3)"
proof (induction src rule: Encode.induct)
  case (1 a b c rest)
  have "(length (a # b # c # rest) + 2) div 3 = Suc ((length rest + 2) div 3)"
    by simp
  then show ?case using "1.IH" by (simp add: Let_def)
qed (simp_all add: Let_def)

lemma alphabet_ascii: "set s \<subseteq> base64_chars \<Longrightarrow> ascii s"
  using base64_chars_ascii by (auto simp: ascii_def)

lemma alphabet_plain:
  "c \<in> base64_chars \<Longrightarrow> c \<noteq> CHR 0x0A \<and> c \<noteq> CHR 0x0D \<and> \<not> asciiSpace c \<and> byte_of c < RuneSelf"
  using asciiSpace_not_alphabet[of c] base64_chars_ascii[of c]
  by (auto simp: RuneSelf_def asciiSpace_def)

text \<open>A line of alphabet characters goes through the scan loop unchanged.\<close>

lemma TrimSpace_alphabet:
  assumes "set l \<subseteq> base64_chars"
  shows "TrimSpace l = l"
proof (cases l)
  case Nil
  then show ?thesis by (simp add: TrimSpace.simps TrimSpace_stop.simps)
next
  case (Cons c cs)
  have "last l \<in> base64_chars" using assms Cons by (metis last_in_set list.distinct(1) subsetD)
  then have "TrimSpace_stop l = l"
    using alphabet_plain[of "last l"] Cons
    by (subst TrimSpace_stop.simps) (simp add: Let_def)
  moreover have "c \<in> base64_chars" using assms Cons by simp
  ultimately show ?thesis
    using alphabet_plain[of c] Cons by (simp add: TrimSpace.simps)
qed

lemma process_line_alphabet: "set l \<subseteq> base64_chars \<Longrightarrow> process_line flags l = l"
  by (simp add: process_line_eq TrimSpace_alphabet subset_iff)

lemma dropCR_alphabet: "set l \<subseteq> base64_chars \<Longrightarrow> dropCR l = l"
proof -
  assume a: "set l \<subseteq> base64_chars"
  have "l \<noteq> [] \<Longrightarrow> last l \<noteq> CHR 0x0D"
    using a alphabet_plain[of "last l"] by (metis last_in_set subsetD)
  then show ?thesis by (auto simp: dropCR_def)
qed

lemma takeWhile_line:
  "set l \<subseteq> base64_chars \<Longrightarrow> takeWhile (\<lambda>c. c \<noteq> CHR 0x0A) (l @ CHR 0x0A # rest) = l"
  using alphabet_plain by (subst takeWhile_append2) auto

text \<open>The scanner gives back the lines that were joined, when none is too long.\<close>

lemma scan_tokens_lines:
  assumes "ls \<noteq> []" "\<forall>l\<in>set ls. set l \<subseteq> base64_chars \<and> length l < MaxScanTokenSize"
  shows "scan_tokens (join_lines ls @ [CHR 0x0A]) = (ls, False)"
  using assms
proof (induction ls)
  case Nil
  then show ?case by simp
next
  case (Cons l ls)
  have l: "set l \<subseteq> base64_chars" "length l < MaxScanTokenSize" using Cons.prems(2) by auto
  show ?case
  proof (cases "ls = []")
    case True
    have "scan_tokens (l @ [CHR 0x0A]) = ([l], False)"
      using l takeWhile_line[OF l(1), of "[]"] dropCR_alphabet[OF l(1)]
      by (subst scan_tokens.simps) (simp add: Let_def scan_tokens.simps[of "[]"])
    then show ?thesis using True by (simp add: join_lines_single)
  next
    case False
    have IH: "scan_tokens (join_lines ls @ [CHR 0x0A]) = (ls, False)"
      using Cons.IH[OF False] Cons.prems(2) by simp
    have "scan_tokens (l @ CHR 0x0A # (join_lines ls @ [CHR 0x0A])) = (l # ls, False)"
      using l takeWhile_line[OF l(1), of "join_lines ls @ [CHR 0x0A]"] dropCR_alphabet[OF l(1)] IH
      by (subst scan_tokens.simps) (simp add: Let_def)
    then show ?thesis using False by (simp add: join_lines_Cons)
  qed
qed

lemma chunks_sub: "l \<in> set (chunks W s) \<Longrightarrow> set l \<subseteq> set s"
proof (induction W s rule: chunks.induct)
  case (1 W xs)
  show ?case
  proof (cases "W = 0 \<or> length xs \<le> W")
    case True
    then have "chunks W xs = [xs]" by (subst chunks.simps) simp
    then show ?thesis using "1.prems" by simp
  next
    case False
    then have "chunks W xs = take W xs # chunks W (drop W xs)" by (subst chunks.simps) simp
    then have "l = take W xs \<or> l \<in> set (chunks W (drop W xs))" using "1.prems" by simp
    then show ?thesis
      using "1.IH"[OF False] by (auto dest: in_set_takeD in_set_dropD)
  qed
qed

lemma chunks_length: "0 < W \<Longrightarrow> l \<in> set (chunks W s) \<Longrightarrow> length l \<le> W"
proof -
  assume W: "0 < W" and l: "l \<in> set (chunks W s)"
  have "chunks W s = butlast (chunks W s) @ [last (chunks W s)]"
    using chunks_ne[of W s] by simp
  then have "l \<in> set (butlast (chunks W s)) \<or> l = last (chunks W s)"
    using l by (metis Un_iff empty_iff empty_set set_ConsD set_append)
  then show ?thesis
    using chunks_butlast_length[of l W s] chunks_last_length[OF W, of s] by auto
qed

text \<open>The text of a source that holds what the encoder wrote is the encoded text.\<close>

lemma source_text_wrapped:
  assumes "set e \<subseteq> base64_chars"
    and "(0 < W \<and> W < int MaxScanTokenSize) \<or> (W \<le> 0 \<and> length e < MaxScanTokenSize)"
  shows "source_text flags (wrapString e W @ [CHR 0x0A]) = e \<and>
         \<not> snd (scan_tokens (wrapString e W @ [CHR 0x0A]))"
proof -
  define ls where "ls = (if 0 < W then chunks (nat W) e else [e])"
  have w: "wrapString e W = join_lines ls"
    using wrapString_ascii[OF alphabet_ascii[OF assms(1)], of W]
    by (simp add: ls_def wrapString_def join_lines_single)
  have ne: "ls \<noteq> []" by (simp add: ls_def chunks_ne)
  have c: "concat ls = e" by (simp add: ls_def concat_chunks)
  have "set l \<subseteq> base64_chars \<and> length l < MaxScanTokenSize" if "l \<in> set ls" for l
  proof (cases "0 < W")
    case True
    then have "l \<in> set (chunks (nat W) e)" using that by (simp add: ls_def)
    then have "set l \<subseteq> set e" "length l \<le> nat W"
      using chunks_sub chunks_length[of "nat W" l e] True by auto
    then show ?thesis using assms True by auto
  next
    case False
    then show ?thesis using that assms by (simp add: ls_def)
  qed
  then have all: "\<forall>l\<in>set ls. set l \<subseteq> base64_chars \<and> length l < MaxScanTokenSize" by blast
  have t: "scan_tokens (wrapString e W @ [CHR 0x0A]) = (ls, False)"
    unfolding w using scan_tokens_lines[OF ne all] .
  have "map (process_line flags) ls = ls"
    using all by (simp add: map_idI process_line_alphabet)
  then show ?thesis
    using t c by (simp add: source_text_def)
qed


text \<open>
  The round trip for a configuration of the encoder, whatever its origin: with a wrap
  width \<open>W\<close>, \<open>0 < W < 65536\<close>, every line of the encoded text fits the buffer of the
  scanner; with wrapping off the encoded text is a single line, which fits for less
  than 49150 bytes.
\<close>

lemma round_trip_width:
  assumes "cancel_at (w_ctx w) = None" "rd_fail (w_in w) = None" "w_out w = []"
    and "cancel_at (w_ctx w') = None" "rd_fail (w_in w') = None"
    and "rd_data (w_in w') = w_out (snd (encodeSource flags w))"
    and "(0 < WrapWidth flags \<and> WrapWidth flags < 65536) \<or>
         (WrapWidth flags \<le> 0 \<and> length (rd_data (w_in w)) < 49150)"
  shows "fst (encodeSource flags w) = None \<and>
         fst (decodeSource flags' w') = None \<and>
         w_out (snd (decodeSource flags' w')) = w_out w' @ rd_data (w_in w) \<and>
         w_err (snd (decodeSource flags' w')) = w_err w'"
proof -
  define e where "e = EncodeToString (rd_data (w_in w))"
  note E = encodeSource_never[OF assms(1,2), of flags]
  have d: "rd_data (w_in w') = wrapString e (WrapWidth flags) @ [CHR 0x0A]"
    using E assms(3,6) by (simp add: e_def)
  have a: "set e \<subseteq> base64_chars"
    by (simp add: e_def EncodeToString_def Encode_alphabet)
  have "length (rd_data (w_in w)) < 49150 \<Longrightarrow> 4 * ((length (rd_data (w_in w)) + 2) div 3) < 65536"
    by linarith
  then have "(0 < WrapWidth flags \<and> WrapWidth flags < int MaxScanTokenSize) \<or>
      (WrapWidth flags \<le> 0 \<and> length e < MaxScanTokenSize)"
    using assms(7) by (auto simp: MaxScanTokenSize_def e_def EncodeToString_def length_Encode)
  note S = source_text_wrapped[OF a this, of flags']
  have se: "scan_end (w_in w') = io_EOF"
    using S assms(5) by (simp add: scan_end_def d)
  have de: "DecodeString (source_text flags' (rd_data (w_in w'))) = (rd_data (w_in w), None)"
    using S DecodeString_EncodeToString[of "rd_data (w_in w)"] by (simp add: d e_def)
  show ?thesis
    using E decodeSource_never[OF assms(4), of flags'] by (simp add: se de)
qed

text \<open>
  Claim C1. For every byte sequence \<open>B\<close>, decoding what \<open>encodeSource\<close> wrote for \<open>B\<close>
  yields exactly \<open>B\<close>, for every wrap width among 0, 10, 20 and 76 given to the
  constructor \<open>Base64\<close> (whatever the other parameters) and for every configuration of
  the decoder, so for both settings of \<open>ignoreGarbage\<close>. The text that \<open>encodeSource\<close>
  writes to an empty sink is the data of the source of \<open>decodeSource\<close>; the
  cancellation signal does not fire and the sources do not fail.
\<close>

theorem round_trip:
  assumes "W \<in> {0, 10, 20, 76}"
    and "cancel_at (w_ctx w) = None" "rd_fail (w_in w) = None" "w_out w = []"
    and "cancel_at (w_ctx w') = None" "rd_fail (w_in w') = None"
    and "rd_data (w_in w')
           = w_out (snd (encodeSource (Flags (Base64 (parameters @ [WrapWidthOpt W]))) w))"
  shows "fst (encodeSource (Flags (Base64 (parameters @ [WrapWidthOpt W]))) w) = None \<and>
         fst (decodeSource flags' w') = None \<and>
         w_out (snd (decodeSource flags' w')) = w_out w' @ rd_data (w_in w) \<and>
         w_err (snd (decodeSource flags' w')) = w_err w'"
proof -
  have "WrapWidth (Flags (Base64 (parameters @ [WrapWidthOpt W]))) = (if W = 0 then 76 else W)"
    using Args_snoc_width[of parameters W] by (simp add: Base64_def Let_def)
  then have "0 < WrapWidth (Flags (Base64 (parameters @ [WrapWidthOpt W]))) \<and>
      WrapWidth (Flags (Base64 (parameters @ [WrapWidthOpt W]))) < 65536"
    using assms(1) by auto
  then show ?thesis
    using round_trip_width[OF assms(2-7), of flags'] by blast
qed

theorem round_trip_witness:
  "w_out (snd (encodeSource (Flags (Base64 [WrapWidthOpt 10]))
     \<lparr>w_ctx = \<lparr>polls = 0, cancel_at = None\<rparr>,
      w_in = \<lparr>rd_data = ''Hello World'', rd_fail = None, rd_calls = 0\<rparr>,
      w_out = [], w_err = []\<rparr>)) = ''SGVsbG8gV2\<newline>9ybGQ=\<newline>'' \<and>
   fst (decodeSource (Flags (Base64 [DecodeFlag True]))
     \<lparr>w_ctx = \<lparr>polls = 0, cancel_at = None\<rparr>,
      w_in = \<lparr>rd_data = ''SGVsbG8gV2\<newline>9ybGQ=\<newline>'', rd_fail = None, rd_calls = 0\<rparr>,
      w_out = [], w_err = []\<rparr>) = None \<and>
   w_out (snd (decodeSource (Flags (Base64 [DecodeFlag True]))
     \<lparr>w_ctx = \<lparr>polls = 0, cancel_at = None\<rparr>,
      w_in = \<lparr>rd_data = ''SGVsbG8gV2\<newline>9ybGQ=\<newline>'', rd_fail = None, rd_calls = 0\<rparr>,
      w_out = [], w_err = []\<rparr>)) = ''Hello World''"
proof -
  have f: "Flags (Base64 [WrapWidthOpt 10])
      = \<lparr>Decode = False, IgnoreGarbage = False, Wrap = False, WrapWidth = 10\<rparr>"
    by (simp add: Base64_def Args_def)
  have e: "EncodeToString ''Hello World'' = ''SGVsbG8gV29ybGQ=''"
    by (simp add: EncodeToString_def enc_def encodeStd_def byte_of_def padChar_def)
  have a: "ascii ''SGVsbG8gV29ybGQ=''"
    by (simp add: ascii_def byte_of_def)
  have w: "wrapString ''SGVsbG8gV29ybGQ='' 10 = ''SGVsbG8gV2\<newline>9ybGQ=''"
    using wrapString_ascii[OF a, of 10] by (simp add: chunks.simps join_lines_def)
  have o: "w_out (snd (encodeSource (Flags (Base64 [WrapWidthOpt 10]))
     \<lparr>w_ctx = \<lparr>polls = 0, cancel_at = None\<rparr>,
      w_in = \<lparr>rd_data = ''Hello World'', rd_fail = None, rd_calls = 0\<rparr>,
      w_out = [], w_err = []\<rparr>)) = ''SGVsbG8gV2\<newline>9ybGQ=\<newline>''"
    using encodeSource_never[of
        "\<lparr>w_ctx = \<lparr>polls = 0, cancel_at = None\<rparr>,
          w_in = \<lparr>rd_data = ''Hello World'', rd_fail = None, rd_calls = 0\<rparr>,
          w_out = [], w_err = []\<rparr>" "Flags (Base64 [WrapWidthOpt 10])"]
    by (simp add: f e w)
  show ?thesis
    using o round_trip[of 10
        "\<lparr>w_ctx = \<lparr>polls = 0, cancel_at = None\<rparr>,
          w_in = \<lparr>rd_data = ''Hello World'', rd_fail = None, rd_calls = 0\<rparr>,
          w_out = [], w_err = []\<rparr>"
        "\<lparr>w_ctx = \<lparr>polls = 0, cancel_at = None\<rparr>,
          w_in = \<lparr>rd_data = ''SGVsbG8gV2\<newline>9ybGQ=\<newline>'', rd_fail = None, rd_calls = 0\<rparr>,
          w_out = [], w_err = []\<rparr>"
        "[]" "Flags (Base64 [DecodeFlag True])"]
    by simp
qed

section \<open>What the decoder accepts is padded base64\<close>

lemma skip_newlines_strip:
  "skip_newlines s si = (s', si') \<Longrightarrow> without_newlines s = without_newlines s'"
  by (induction s arbitrary: si) (auto simp: without_newlines_def split: if_splits)

lemma symbol_iff: "decodeMap c \<noteq> 0xff \<longleftrightarrow> c \<in> set encodeStd"
proof -
  have "length (takeWhile (\<lambda>x. x \<noteq> c) encodeStd) \<le> 64"
    using length_takeWhile_le[of "\<lambda>x. x \<noteq> c" encodeStd] encodeStd_facts(2) by simp
  then show ?thesis by (auto simp: decodeMap_def)
qed

lemma symbol_strip: "c \<in> set encodeStd \<Longrightarrow> without_newlines (c # s) = c # without_newlines s"
  using encodeStd_facts(3) by (simp add: without_newlines_def)

lemma newline_strip: "is_newline c \<Longrightarrow> without_newlines (c # s) = without_newlines s"
  by (simp add: without_newlines_def)

lemma pad_strip: "without_newlines (padChar # s) = padChar # without_newlines s"
  using pad_facts(2) by (simp add: without_newlines_def)

lemma after_padding_ok:
  "after_padding dbuf rest si = Quantum d dl rest' si' None \<Longrightarrow>
     d = dbuf \<and> dl = length dbuf \<and> rest' = [] \<and> without_newlines rest = []"
  using skip_newlines_strip[of rest si]
  by (auto simp: after_padding_def without_newlines_def split: prod.splits if_splits)

lemma after_padding_no_return: "after_padding dbuf rest si \<noteq> Return k e"
  by (simp add: after_padding_def split: prod.splits)

lemma decodeQuantum_loop_accepts:
  "decodeQuantum_loop dbuf s si = q \<Longrightarrow> length dbuf \<le> 4 \<Longrightarrow>
     (\<forall>d dl rest si'. q = Quantum d dl rest si' None \<longrightarrow>
        (\<exists>cs. set cs \<subseteq> set encodeStd \<and> length dbuf + length cs = dl \<and>
           (dl = 4 \<and> without_newlines s = cs @ without_newlines rest \<or>
            dl = 3 \<and> rest = [] \<and> without_newlines s = cs @ [padChar] \<or>
            dl = 2 \<and> rest = [] \<and> without_newlines s = cs @ [padChar, padChar]))) \<and>
     (\<forall>si'. q = Return si' None \<longrightarrow> dbuf = [] \<and> without_newlines s = [])"
proof (induction dbuf s si arbitrary: q rule: decodeQuantum_loop.induct)
  case (1 dbuf si)
  then show ?case by (auto simp: Let_def without_newlines_def split: if_splits)
next
  case (2 dbuf c rest si)
  show ?case
  proof (cases "length dbuf \<ge> 4")
    case True
    then have "q = Quantum dbuf 4 (c # rest) si None" using "2.prems" by (simp add: Let_def)
    then show ?thesis using True "2.prems"(2) by auto
  next
    case False
    show ?thesis
    proof (cases "decodeMap c \<noteq> 0xff")
      case True
      then have c: "c \<in> set encodeStd" by (simp add: symbol_iff)
      have q: "decodeQuantum_loop (dbuf @ [decodeMap c]) rest (si + 1) = q"
        using False True "2.prems" by (simp add: Let_def)
      have IH: "(\<forall>d dl rest' si'. q = Quantum d dl rest' si' None \<longrightarrow>
        (\<exists>cs. set cs \<subseteq> set encodeStd \<and> length (dbuf @ [decodeMap c]) + length cs = dl \<and>
           (dl = 4 \<and> without_newlines rest = cs @ without_newlines rest' \<or>
            dl = 3 \<and> rest' = [] \<and> without_newlines rest = cs @ [padChar] \<or>
            dl = 2 \<and> rest' = [] \<and> without_newlines rest = cs @ [padChar, padChar]))) \<and>
        (\<forall>si'. q = Return si' None \<longrightarrow> dbuf @ [decodeMap c] = [] \<and> without_newlines rest = [])"
        using "2.IH"(1)[OF refl _ refl True q] False by simp
      show ?thesis
      proof (intro conjI allI impI)
        fix d dl rest' si' assume "q = Quantum d dl rest' si' None"
        then obtain cs where cs: "set cs \<subseteq> set encodeStd" "length (dbuf @ [decodeMap c]) + length cs = dl"
          "dl = 4 \<and> without_newlines rest = cs @ without_newlines rest' \<or>
            dl = 3 \<and> rest' = [] \<and> without_newlines rest = cs @ [padChar] \<or>
            dl = 2 \<and> rest' = [] \<and> without_newlines rest = cs @ [padChar, padChar]"
          using IH by blast
        show "\<exists>cs. set cs \<subseteq> set encodeStd \<and> length dbuf + length cs = dl \<and>
           (dl = 4 \<and> without_newlines (c # rest) = cs @ without_newlines rest' \<or>
            dl = 3 \<and> rest' = [] \<and> without_newlines (c # rest) = cs @ [padChar] \<or>
            dl = 2 \<and> rest' = [] \<and> without_newlines (c # rest) = cs @ [padChar, padChar])"
          using cs c by (intro exI[of _ "c # cs"]) (auto simp: symbol_strip)
      next
        fix si' assume "q = Return si' None"
        then show "dbuf = []" "without_newlines (c # rest) = []" using IH by auto
      qed
    next
      case nm: False
      show ?thesis
      proof (cases "is_newline c")
        case True
        have q: "decodeQuantum_loop dbuf rest (si + 1) = q"
          using False nm True "2.prems" by (simp add: Let_def)
        show ?thesis
          using "2.IH"(2)[OF refl _ refl _ True q] False nm "2.prems"(2)
          by (simp add: newline_strip[OF True])
      next
        case nn: False
        show ?thesis
        proof (cases "c \<noteq> padChar \<or> length dbuf = 0 \<or> length dbuf = 1")
          case True
          then have "\<exists>k e. q = Return k (Some e)"
            using False nm nn "2.prems" by (auto simp: Let_def)
          then show ?thesis by auto
        next
          case pad: False
          then have c: "c = padChar" by simp
          show ?thesis
          proof (cases "length dbuf = 2")
            case two: True
            obtain r1 k1 where sk: "skip_newlines rest (si + 1) = (r1, k1)"
              by (cases "skip_newlines rest (si + 1)") auto
            note s1 = skip_newlines_strip[OF sk]
            show ?thesis
            proof (cases r1)
              case Nil
              then have "\<exists>k e. q = Return k (Some e)"
                using False nm nn pad two sk "2.prems" by (auto simp: Let_def)
              then show ?thesis by auto
            next
              case (Cons c' r2)
              show ?thesis
              proof (cases "c' = padChar")
                case False
                then have "\<exists>k e. q = Return k (Some e)"
                  using \<open>\<not> 4 \<le> length dbuf\<close> nm nn pad two sk Cons "2.prems"
                  by (auto simp: Let_def)
                then show ?thesis by auto
              next
                case True
                have q: "q = after_padding dbuf r2 (k1 + 1)"
                  using \<open>\<not> 4 \<le> length dbuf\<close> nm nn pad two sk Cons True "2.prems"
                  by (auto simp: Let_def)
                have wn: "without_newlines (c # rest) = [padChar, padChar]"
                  if "without_newlines r2 = []"
                  using that s1 Cons True c by (simp add: pad_strip)
                show ?thesis
                proof (intro conjI allI impI)
                  fix d dl rest' si' assume a: "q = Quantum d dl rest' si' None"
                  then have "after_padding dbuf r2 (k1 + 1) = Quantum d dl rest' si' None"
                    using q by simp
                  from after_padding_ok[OF this]
                  have "dl = 2 \<and> rest' = [] \<and> without_newlines (c # rest) = [padChar, padChar]"
                    using two wn by simp
                  then show "\<exists>cs. set cs \<subseteq> set encodeStd \<and> length dbuf + length cs = dl \<and>
                     (dl = 4 \<and> without_newlines (c # rest) = cs @ without_newlines rest' \<or>
                      dl = 3 \<and> rest' = [] \<and> without_newlines (c # rest) = cs @ [padChar] \<or>
                      dl = 2 \<and> rest' = [] \<and> without_newlines (c # rest) = cs @ [padChar, padChar])"
                    using two by (intro exI[of _ "[]"]) simp
                next
                  fix si' assume "q = Return si' None"
                  then show "dbuf = []" "without_newlines (c # rest) = []"
                    using q after_padding_no_return[of dbuf r2 "k1 + 1" si' None] by auto
                qed
              qed
            qed
          next
            case nt: False
            then have three: "length dbuf = 3" using False pad by linarith
            have q: "q = after_padding dbuf rest (si + 1)"
              using False nm nn pad nt "2.prems" by (auto simp: Let_def)
            have wn: "without_newlines (c # rest) = [padChar]" if "without_newlines rest = []"
              using that c by (simp add: pad_strip)
            show ?thesis
            proof (intro conjI allI impI)
              fix d dl rest' si' assume a: "q = Quantum d dl rest' si' None"
              then have "after_padding dbuf rest (si + 1) = Quantum d dl rest' si' None"
                using q by simp
              from after_padding_ok[OF this]
              have "dl = 3 \<and> rest' = [] \<and> without_newlines (c # rest) = [padChar]"
                using three wn by simp
              then show "\<exists>cs. set cs \<subseteq> set encodeStd \<and> length dbuf + length cs = dl \<and>
                 (dl = 4 \<and> without_newlines (c # rest) = cs @ without_newlines rest' \<or>
                  dl = 3 \<and> rest' = [] \<and> without_newlines (c # rest) = cs @ [padChar] \<or>
                  dl = 2 \<and> rest' = [] \<and> without_newlines (c # rest) = cs @ [padChar, padChar])"
                using three by (intro exI[of _ "[]"]) simp
            next
              fix si' assume "q = Return si' None"
              then show "dbuf = []" "without_newlines (c # rest) = []"
                using q after_padding_no_return[of dbuf rest "si + 1" si' None] by auto
            qed
          qed
        qed
      qed
    qed
  qed
qed

lemma valid_base64_group:
  assumes "set cs \<subseteq> set encodeStd" "length cs = 4" "valid_base64 t"
  shows "valid_base64 (cs @ t)"
proof -
  obtain a b c d where cs: "cs = [a, b, c, d]"
    using assms(2) by (auto simp: length_Suc_conv numeral_eq_Suc)
  show ?thesis
    using assms(1,3) by (cases t) (simp_all add: cs)
qed

lemma Decode_loop_accepts:
  "Decode_loop s si dst = (d, None) \<Longrightarrow> valid_base64 (without_newlines s)"
proof (induction s si dst rule: Decode_loop.induct)
  case (1 src si dst)
  show ?case
  proof (cases "src = []")
    case True
    then show ?thesis by (simp add: without_newlines_def)
  next
    case False
    note A = decodeQuantum_loop_accepts[OF refl, of "[]" src si, simplified]
    show ?thesis
    proof (cases "decodeQuantum_loop [] src si")
      case (Return k e)
      then have "e = None"
        using "1.prems" False
        by (subst (asm) Decode_loop.simps) (simp add: decodeQuantum_def split: if_splits)
      then show ?thesis using A Return by simp
    next
      case (Quantum dbuf dl rest k e)
      obtain bytes where q: "decodeQuantum src si = ((rest, k), bytes, e)"
        using Quantum by (simp add: decodeQuantum_def Let_def)
      have e: "e = None"
        using "1.prems" False q
        by (subst (asm) Decode_loop.simps) (simp split: if_splits)
      have next_ok: "Decode_loop rest k (dst @ bytes) = (d, None)"
        using "1.prems" False q e
        by (subst (asm) Decode_loop.simps) simp
      have IH: "valid_base64 (without_newlines rest)"
        using "1.IH"[OF False q[symmetric] refl refl _ next_ok] e by simp
      obtain cs where cs: "set cs \<subseteq> set encodeStd" "length cs = dl"
        "dl = 4 \<and> without_newlines src = cs @ without_newlines rest \<or>
         dl = 3 \<and> rest = [] \<and> without_newlines src = cs @ [padChar] \<or>
         dl = 2 \<and> rest = [] \<and> without_newlines src = cs @ [padChar, padChar]"
        using A Quantum e by auto
      from cs(3) show ?thesis
      proof (elim disjE conjE)
        assume "dl = 4" "without_newlines src = cs @ without_newlines rest"
        then show ?thesis using valid_base64_group[OF cs(1) _ IH] cs(2) by simp
      next
        assume a: "dl = 3" "without_newlines src = cs @ [padChar]"
        then obtain x y z where "cs = [x, y, z]"
          using cs(2) by (auto simp: length_Suc_conv numeral_eq_Suc)
        then show ?thesis using a cs(1) by simp
      next
        assume a: "dl = 2" "without_newlines src = cs @ [padChar, padChar]"
        then obtain x y where "cs = [x, y]"
          using cs(2) by (auto simp: length_Suc_conv numeral_eq_Suc)
        then show ?thesis using a cs(1) by simp
      qed
    qed
  qed
qed

lemma DecodeString_accepts:
  "snd (DecodeString s) = None \<Longrightarrow> valid_base64 (without_newlines s)"
  using Decode_loop_accepts[of s 0 "[]" "fst (DecodeString s)"]
  by (simp add: DecodeString_def prod_eq_iff)

section \<open>Text that is not base64\<close>

text \<open>
  Claim C3, as amended. For every input source that is scanned to its end (the
  cancellation signal does not fire, no read fails and no line is too long for the
  scanner) and whose concatenated processed text, without the carriage returns and line
  feeds that the decoder skips, is not valid padded standard base64, \<open>decodeSource\<close>
  writes a decode-error message to the error channel, returns that error, and writes
  no byte to the output sink.
\<close>

theorem decode_failure:
  assumes "cancel_at (w_ctx w) = None" and "scan_end (w_in w) = io_EOF"
    and "\<not> valid_base64 (without_newlines (source_text flags (rd_data (w_in w))))"
  shows "\<exists>n. fst (decodeSource flags w) = Some (CorruptInputError n) \<and>
           w_err (snd (decodeSource flags w))
             = w_err w @ ''base64: illegal base64 data at input byte '' @ Itoa n @ ''\<newline>'' \<and>
           w_out (snd (decodeSource flags w)) = w_out w"
proof -
  let ?t = "source_text flags (rd_data (w_in w))"
  obtain decoded r where d: "DecodeString ?t = (decoded, r)"
    by (cases "DecodeString ?t") auto
  have "r \<noteq> None" using DecodeString_accepts[of ?t] assms(3) d by auto
  then obtain err where r: "r = Some err" by auto
  have "\<exists>n. err = CorruptInputError n"
    using DecodeString_error[of ?t] d r by auto
  then obtain n where n: "err = CorruptInputError n" by auto
  show ?thesis
    using decodeSource_never[OF assms(1), of flags] assms(2) d r n
    by (intro exI[of _ n]) (simp add: report_def)
qed

theorem decode_failure_witness:
  "fst (decodeSource (Flags (Base64 [DecodeFlag True]))
     \<lparr>w_ctx = \<lparr>polls = 0, cancel_at = None\<rparr>,
      w_in = \<lparr>rd_data = ''SGVsbG8'', rd_fail = None, rd_calls = 0\<rparr>,
      w_out = [], w_err = []\<rparr>) = Some (CorruptInputError 4) \<and>
   w_err (snd (decodeSource (Flags (Base64 [DecodeFlag True]))
     \<lparr>w_ctx = \<lparr>polls = 0, cancel_at = None\<rparr>,
      w_in = \<lparr>rd_data = ''SGVsbG8'', rd_fail = None, rd_calls = 0\<rparr>,
      w_out = [], w_err = []\<rparr>)) = ''base64: illegal base64 data at input byte 4\<newline>'' \<and>
   w_out (snd (decodeSource (Flags (Base64 [DecodeFlag True]))
     \<lparr>w_ctx = \<lparr>polls = 0, cancel_at = None\<rparr>,
      w_in = \<lparr>rd_data = ''SGVsbG8'', rd_fail = None, rd_calls = 0\<rparr>,
      w_out = [], w_err = []\<rparr>)) = []"
proof -
  define W where "W = \<lparr>w_ctx = \<lparr>polls = 0, cancel_at = None\<rparr>,
      w_in = \<lparr>rd_data = ''SGVsbG8'', rd_fail = None, rd_calls = 0\<rparr>,
      w_out = [], w_err = []\<rparr>"
  define F where "F = Flags (Base64 [DecodeFlag True])"
  have f: "\<not> IgnoreGarbage F" by (simp add: F_def Base64_def Args_def)
  have t: "TrimSpace ''SGVsbG8'' = ''SGVsbG8''" by (simp add: trim_eval)
  have s: "source_text F (rd_data (w_in W)) = ''SGVsbG8''" "scan_end (w_in W) = io_EOF"
    using f by (simp_all add: W_def scan_eval t)
  have v: "\<not> valid_base64 (without_newlines (source_text F (rd_data (w_in W))))"
    by (simp add: s without_newlines_def is_newline_def)
  have c: "cancel_at (w_ctx W) = None" by (simp add: W_def)
  have d: "DecodeString ''SGVsbG8'' = (''Hel'', Some (CorruptInputError 4))"
    by (simp add: b64_eval char_eval)
  have r: "fst (decodeSource F W) = Some (CorruptInputError 4)"
    using decodeSource_never[OF c, of F] by (simp add: s d)
  obtain n where n: "fst (decodeSource F W) = Some (CorruptInputError n)"
    "w_err (snd (decodeSource F W))
       = w_err W @ ''base64: illegal base64 data at input byte '' @ Itoa n @ ''\<newline>''"
    "w_out (snd (decodeSource F W)) = w_out W"
    using decode_failure[OF c s(2) v] by blast
  have "n = 4" using n(1) r by simp
  then have "w_err (snd (decodeSource F W)) = ''base64: illegal base64 data at input byte 4\<newline>''"
    using n(2) by (simp add: W_def Itoa_digit char_eval)
  moreover have "w_out (snd (decodeSource F W)) = []" using n(3) by (simp add: W_def)
  ultimately show ?thesis using r unfolding W_def F_def by simp
qed

text \<open>
  The claim as stated takes the processed text as it is. A carriage return inside a line
  is not a character of base64, yet the decoder skips it and the decoding succeeds.
\<close>

theorem decode_failure_counterexample:
  "source_text (Flags (Base64 [DecodeFlag True])) (''SGVs'' @ [CHR 0x0D] @ ''bG8=\<newline>'')
     = ''SGVs'' @ [CHR 0x0D] @ ''bG8='' \<and>
   \<not> valid_base64 (''SGVs'' @ [CHR 0x0D] @ ''bG8='') \<and>
   fst (decodeSource (Flags (Base64 [DecodeFlag True]))
     \<lparr>w_ctx = \<lparr>polls = 0, cancel_at = None\<rparr>,
      w_in = \<lparr>rd_data = ''SGVs'' @ [CHR 0x0D] @ ''bG8=\<newline>'', rd_fail = None, rd_calls = 0\<rparr>,
      w_out = [], w_err = []\<rparr>) = None \<and>
   w_out (snd (decodeSource (Flags (Base64 [DecodeFlag True]))
     \<lparr>w_ctx = \<lparr>polls = 0, cancel_at = None\<rparr>,
      w_in = \<lparr>rd_data = ''SGVs'' @ [CHR 0x0D] @ ''bG8=\<newline>'', rd_fail = None, rd_calls = 0\<rparr>,
      w_out = [], w_err = []\<rparr>)) = ''Hello'' \<and>
   w_err (snd (decodeSource (Flags (Base64 [DecodeFlag True]))
     \<lparr>w_ctx = \<lparr>polls = 0, cancel_at = None\<rparr>,
      w_in = \<lparr>rd_data = ''SGVs'' @ [CHR 0x0D] @ ''bG8=\<newline>'', rd_fail = None, rd_calls = 0\<rparr>,
      w_out = [], w_err = []\<rparr>)) = []"
proof -
  define W where "W = \<lparr>w_ctx = \<lparr>polls = 0, cancel_at = None\<rparr>,
      w_in = \<lparr>rd_data = ''SGVs'' @ [CHR 0x0D] @ ''bG8=\<newline>'', rd_fail = None, rd_calls = 0\<rparr>,
      w_out = [], w_err = []\<rparr>"
  define F where "F = Flags (Base64 [DecodeFlag True])"
  have f: "\<not> IgnoreGarbage F" by (simp add: F_def Base64_def Args_def)
  have t: "TrimSpace (''SGVs'' @ [CHR 0x0D] @ ''bG8='') = ''SGVs'' @ [CHR 0x0D] @ ''bG8=''"
    by (simp add: trim_eval)
  have s: "source_text F (rd_data (w_in W)) = ''SGVs'' @ [CHR 0x0D] @ ''bG8=''"
    "scan_end (w_in W) = io_EOF"
    using f t by (simp_all add: W_def scan_eval)
  have v: "\<not> valid_base64 (''SGVs'' @ [CHR 0x0D] @ ''bG8='')"
    by (simp add: encodeStd_def)
  have c: "cancel_at (w_ctx W) = None" by (simp add: W_def)
  have d: "DecodeString (''SGVs'' @ [CHR 0x0D] @ ''bG8='') = (''Hello'', None)"
    by (simp add: b64_eval char_eval)
  have "fst (decodeSource F W) = None \<and> w_out (snd (decodeSource F W)) = ''Hello'' \<and>
        w_err (snd (decodeSource F W)) = []"
    using decodeSource_never[OF c, of F] by (simp add: s d[simplified]) (simp add: W_def)
  then show ?thesis using s(1) v unfolding W_def F_def by simp
qed

section \<open>The checks an invocation makes\<close>








section \<open>Cancellation seen at a check\<close>




end
